theory Spec2Isabelle
  imports Complex_Main
begin

section \<open>Go values, errors and panics\<close>

text \<open>
  The decoder of \<^verbatim>\<open>consume.go\<close> walks a byte buffer with an explicit cursor. A Go
  \<^verbatim>\<open>[]byte\<close> and a Go \<^verbatim>\<open>string\<close> are both sequences of bytes, modelled as
  \<^typ>\<open>string\<close> (a list of 8-bit characters). A Go \<^verbatim>\<open>int\<close> is modelled as \<^typ>\<open>int\<close>
  on a 64-bit platform; buffers are shorter than \<open>2^63\<close> bytes, so the cursor arithmetic
  of the consumers cannot wrap around, with one exception: \<^verbatim>\<open>offset+length\<close> in
  \<^verbatim>\<open>consumeStringRealPart\<close> adds a number read from the input. There a wrapped sum is
  negative and an unwrapped one exceeds the length of the text, and both make the slice
  expression panic, which is what the model returns.

  A Go function either returns its result tuple or panics; an \<^verbatim>\<open>error\<close> is part of
  the result tuple (\<open>None\<close> is \<^verbatim>\<open>nil\<close>).
\<close>

datatype num_error = ErrSyntax | ErrRange

datatype error =
    ErrorString string
  | NumError string string num_error

datatype panic = IndexOutOfRange | SliceBoundsOutOfRange | ReflectPanic

datatype 'a outcome = Returns 'a | Panics panic

text \<open>The dynamically typed value \<^verbatim>\<open>interface{}\<close> that \<^verbatim>\<open>consumeNext\<close> returns.\<close>

datatype 'f "value" = VNil | VBool bool | VInt64 int | VFloat64 'f | VString string

text \<open>
  What the decoder takes from outside \<^verbatim>\<open>consume.go\<close> and the specification leaves
  open: \<^verbatim>\<open>strconv.ParseFloat(s, 64)\<close> on a text that is not empty and the
  conversion \<^verbatim>\<open>float32(x)\<close> of the Go runtime (floating point, over an arbitrary
  carrier \<open>'f\<close>), and the raw-decode helper
  \<^verbatim>\<open>DecodePHPString\<close> of the package, which the specification names without saying
  what it computes. They are parameters of the model.
\<close>

record 'f externals =
  ParseFloat :: "string \<Rightarrow> error + 'f"
  float32 :: "'f \<Rightarrow> 'f"
  DecodePHPString :: "string \<Rightarrow> string"

text \<open>
  \<^verbatim>\<open>strconv.ParseFloat(s, 64)\<close>: the empty string is a syntax error; what it returns on
  any other text is the parameter's.
\<close>

definition strconvParseFloat :: "'f externals \<Rightarrow> string \<Rightarrow> error + 'f" where
  "strconvParseFloat ext s =
     (if s = [] then Inl (NumError ''ParseFloat'' s ErrSyntax) else ParseFloat ext s)"

section \<open>strconv.Atoi\<close>

definition isDigit :: "char \<Rightarrow> bool" where
  "isDigit c = (48 \<le> (of_char c :: nat) \<and> (of_char c :: nat) \<le> 57)"

text \<open>
  \<^verbatim>\<open>strconv.ParseUint(s, 10, 64)\<close> on the digits: a character that is not a digit is a
  syntax error, a prefix whose value passes \<open>2^64 - 1\<close> is a range error, whichever
  comes first.
\<close>

fun parseUint :: "string \<Rightarrow> int \<Rightarrow> num_error + int" where
  "parseUint [] n = Inr n"
| "parseUint (c # cs) n =
     (if \<not> isDigit c then Inl ErrSyntax
      else if 2 ^ 64 - 1 < n * 10 + (of_char c - 48) then Inl ErrRange
      else parseUint cs (n * 10 + (of_char c - 48)))"

text \<open>
  \<^verbatim>\<open>strconv.Atoi\<close>: an optional sign, then at least one decimal digit and nothing else;
  the value must fit a signed 64-bit integer.
\<close>

definition Atoi :: "string \<Rightarrow> error + int" where
  "Atoi s =
     (let (neg, ds) =
        (case s of
           [] \<Rightarrow> (False, [])
         | c # r \<Rightarrow> if c = CHR ''-'' then (True, r)
                    else if c = CHR ''+'' then (False, r) else (False, s))
      in if ds = [] then Inl (NumError ''Atoi'' s ErrSyntax)
         else case parseUint ds 0 of
           Inl ErrSyntax \<Rightarrow> Inl (NumError ''Atoi'' s ErrSyntax)
         | Inl ErrRange \<Rightarrow> Inl (NumError ''Atoi'' s ErrRange)
         | Inr un \<Rightarrow>
             if \<not> neg \<and> 2 ^ 63 \<le> un then Inl (NumError ''Atoi'' s ErrRange)
             else if neg \<and> 2 ^ 63 < un then Inl (NumError ''Atoi'' s ErrRange)
             else Inr (if neg then - un else un))"

section \<open>The helpers of the package that \<^verbatim>\<open>consume.go\<close> calls\<close>

text \<open>
  Modelled from the spec: \<^verbatim>\<open>findByte\<close> is not in \<^verbatim>\<open>consume.go\<close>. Section 4.1:
  it "scans forward for the first occurrence of a target byte at or after
  \<^verbatim>\<open>fromOffset\<close>" and returns a negative sentinel when there is none.
\<close>

fun scan :: "string \<Rightarrow> char \<Rightarrow> nat \<Rightarrow> int" where
  "scan [] b i = - 1"
| "scan (c # cs) b i = (if c = b then int i else scan cs b (Suc i))"

definition findByte :: "string \<Rightarrow> char \<Rightarrow> int \<Rightarrow> int" where
  "findByte data lookingFor offset = scan (drop (nat offset) data) lookingFor (nat offset)"

text \<open>
  Modelled from the spec: \<^verbatim>\<open>checkType\<close> is not in \<^verbatim>\<open>consume.go\<close>. Section 4.2,
  step 1: it validates "that \<^verbatim>\<open>buffer[offset]\<close> equals the expected tag character".
  The same validation guards \<^verbatim>\<open>N;\<close>, which has no separator, so the byte after the tag
  is not part of the check.
\<close>

definition checkType :: "string \<Rightarrow> char \<Rightarrow> int \<Rightarrow> bool" where
  "checkType data typeCharacter offset =
     (0 \<le> offset \<and> offset < int (length data) \<and> data ! nat offset = typeCharacter)"

text \<open>
  Modelled from the spec: \<^verbatim>\<open>upperCaseFirstLetter\<close> is not in \<^verbatim>\<open>consume.go\<close>.
  Section 4.5, step 5b: "normalize the key (first character capitalized)".
\<close>

definition toUpper :: "char \<Rightarrow> char" where
  "toUpper c =
     (if 97 \<le> (of_char c :: nat) \<and> (of_char c :: nat) \<le> 122
      then char_of ((of_char c :: nat) - 32) else c)"

definition upperCaseFirstLetter :: "string \<Rightarrow> string" where
  "upperCaseFirstLetter s = (case s of [] \<Rightarrow> [] | c # cs \<Rightarrow> toUpper c # cs)"

section \<open>The scalar consumers\<close>

text \<open>The Go slice expression \<^verbatim>\<open>s[lo:hi]\<close>, where it is in range.\<close>

definition slice :: "string \<Rightarrow> int \<Rightarrow> int \<Rightarrow> string" where
  "slice s lo hi = take (nat (hi - lo)) (drop (nat lo) s)"

definition consumeStringUntilByte :: "string \<Rightarrow> char \<Rightarrow> int \<Rightarrow> (string \<times> int) outcome" where
  "consumeStringUntilByte data lookingFor offset =
     (let newOffset = findByte data lookingFor offset in
      if newOffset < 0 then Returns ([], - 1)
      else if 0 \<le> offset \<and> offset \<le> newOffset \<and> newOffset \<le> int (length data)
        then Returns (slice data offset newOffset, newOffset)
        else Panics SliceBoundsOutOfRange)"

definition consumeInt :: "string \<Rightarrow> int \<Rightarrow> (int \<times> int \<times> error option) outcome" where
  "consumeInt data offset =
     (if \<not> checkType data CHR ''i'' offset
      then Returns (0, - 1, Some (ErrorString ''not an integer''))
      else case consumeStringUntilByte data CHR '';'' (offset + 2) of
        Panics p \<Rightarrow> Panics p
      | Returns (alphaNumber, newOffset) \<Rightarrow>
          (case Atoi alphaNumber of
             Inl err \<Rightarrow> Returns (0, - 1, Some err)
           | Inr i \<Rightarrow> Returns (i, newOffset + 1, None)))"

definition consumeFloat ::
  "('f::zero) externals \<Rightarrow> string \<Rightarrow> int \<Rightarrow> ('f \<times> int \<times> error option) outcome" where
  "consumeFloat ext data offset =
     (if \<not> checkType data CHR ''d'' offset
      then Returns (0, - 1, Some (ErrorString ''not a float''))
      else case consumeStringUntilByte data CHR '';'' (offset + 2) of
        Panics p \<Rightarrow> Panics p
      | Returns (alphaNumber, newOffset) \<Rightarrow>
          (case strconvParseFloat ext alphaNumber of
             Inl err \<Rightarrow> Returns (0, - 1, Some err)
           | Inr v \<Rightarrow> Returns (v, newOffset + 1, None)))"

definition consumeIntPart :: "string \<Rightarrow> int \<Rightarrow> (int \<times> int \<times> error option) outcome" where
  "consumeIntPart data offset =
     (case consumeStringUntilByte data CHR '':'' offset of
        Panics p \<Rightarrow> Panics p
      | Returns (rawValue, newOffset) \<Rightarrow>
          (case Atoi rawValue of
             Inl err \<Rightarrow> Returns (0, - 1, Some err)
           | Inr v \<Rightarrow> Returns (v, newOffset + 1, None)))"

definition consumeStringRealPart ::
  "'f externals \<Rightarrow> string \<Rightarrow> int \<Rightarrow> (string \<times> int \<times> error option) outcome" where
  "consumeStringRealPart ext data offset =
     (case consumeIntPart data offset of
        Panics p \<Rightarrow> Panics p
      | Returns (len, newOffset, Some err) \<Rightarrow> Returns ([], - 1, Some err)
      | Returns (len, newOffset, None) \<Rightarrow>
          (let offset' = newOffset + 1;
               s = DecodePHPString ext data
           in if 0 \<le> offset' \<and> offset' \<le> offset' + len \<and> offset' + len \<le> int (length s)
              then Returns (slice s offset' (offset' + len), offset' + len + 2, None)
              else Panics SliceBoundsOutOfRange))"

definition consumeString ::
  "'f externals \<Rightarrow> string \<Rightarrow> int \<Rightarrow> (string \<times> int \<times> error option) outcome" where
  "consumeString ext data offset =
     (if \<not> checkType data CHR ''s'' offset
      then Returns ([], - 1, Some (ErrorString ''not a string''))
      else consumeStringRealPart ext data (offset + 2))"

definition consumeNil :: "string \<Rightarrow> int \<Rightarrow> ('f value \<times> int \<times> error option) outcome" where
  "consumeNil data offset =
     (if \<not> checkType data CHR ''N'' offset
      then Returns (VNil, - 1, Some (ErrorString ''not null''))
      else Returns (VNil, offset + 2, None))"

definition consumeBool :: "string \<Rightarrow> int \<Rightarrow> (bool \<times> int \<times> error option) outcome" where
  "consumeBool data offset =
     (if \<not> checkType data CHR ''b'' offset
      then Returns (False, - 1, Some (ErrorString ''not a boolean''))
      else if 0 \<le> offset + 2 \<and> offset + 2 < int (length data)
        then Returns (data ! nat (offset + 2) = CHR ''1'', offset + 4, None)
        else Panics IndexOutOfRange)"

section \<open>The value dispatcher\<close>

text \<open>The conversion of a consumer's typed result to \<^verbatim>\<open>interface{}\<close>.\<close>

definition boxed ::
  "('a \<Rightarrow> 'f value) \<Rightarrow> ('a \<times> int \<times> error option) outcome
     \<Rightarrow> ('f value \<times> int \<times> error option) outcome" where
  "boxed box r =
     (case r of Panics p \<Rightarrow> Panics p | Returns (x, off, err) \<Rightarrow> Returns (box x, off, err))"

definition consumeNext ::
  "('f::zero) externals \<Rightarrow> string \<Rightarrow> int \<Rightarrow> ('f value \<times> int \<times> error option) outcome" where
  "consumeNext ext data offset =
     (if int (length data) \<le> offset then Returns (VNil, - 1, Some (ErrorString ''corrupt''))
      else if offset < 0 then Panics IndexOutOfRange
      else if data ! nat offset = CHR ''b'' then boxed VBool (consumeBool data offset)
      else if data ! nat offset = CHR ''d'' then boxed VFloat64 (consumeFloat ext data offset)
      else if data ! nat offset = CHR ''i'' then boxed VInt64 (consumeInt data offset)
      else if data ! nat offset = CHR ''s'' then boxed VString (consumeString ext data offset)
      else if data ! nat offset = CHR ''N'' then consumeNil data offset
      else Returns (VNil, - 1,
             Some (ErrorString (''can not consume type: '' @ drop (nat offset) data))))"

section \<open>The destination record\<close>

text \<open>
  \<^verbatim>\<open>consumeObject\<close> reaches the caller's record through \<^verbatim>\<open>reflect\<close>. A destination
  is modelled by the kind of each field, as \<^verbatim>\<open>setField\<close> tells the kinds apart:
  the signed integer kinds, the unsigned kinds \<^verbatim>\<open>Uint8\<close> to \<^verbatim>\<open>Uint64\<close>, the two float
  kinds, the predeclared types \<^verbatim>\<open>bool\<close> and \<^verbatim>\<open>string\<close>, the empty interface, a struct
  (its fields in order, each with its name and whether it is exported; embedded fields
  are not modelled), and every other type (\<^verbatim>\<open>uint\<close>, \<^verbatim>\<open>uintptr\<close>, named boolean and
  string types, pointers, slices, maps and so on), to which no decoded value is
  assignable. The pointer \<^verbatim>\<open>v\<close> that \<^verbatim>\<open>consumeObject\<close> receives is modelled by what
  it points to; the function returns the updated destination, also when it returns an
  error, since writes are not rolled back.
\<close>

datatype int_kind = KInt | KInt8 | KInt16 | KInt32 | KInt64

datatype uint_kind = KUint8 | KUint16 | KUint32 | KUint64

datatype 'f slot =
    SInt int_kind int
  | SUint uint_kind int
  | SFloat32 'f
  | SFloat64 'f
  | SBool bool
  | SString string
  | SIface "'f value"
  | SStruct "(string \<times> bool \<times> 'f slot) list"
  | SOther

type_synonym 'f field = "bool \<times> 'f slot"

fun int_bits :: "int_kind \<Rightarrow> nat" where
  "int_bits KInt = 64"
| "int_bits KInt8 = 8"
| "int_bits KInt16 = 16"
| "int_bits KInt32 = 32"
| "int_bits KInt64 = 64"

fun uint_bits :: "uint_kind \<Rightarrow> nat" where
  "uint_bits KUint8 = 8"
| "uint_bits KUint16 = 16"
| "uint_bits KUint32 = 32"
| "uint_bits KUint64 = 64"

text \<open>
  Modelled from the spec: the type \<^verbatim>\<open>dummyObject\<close> is not declared in
  \<^verbatim>\<open>consume.go\<close>. Section 3: the Discard Sink is "a zero-field placeholder
  destination"; the code's comment calls it a dummy object that has no keys.
\<close>

definition dummyObject :: "'f slot" where
  "dummyObject = SStruct []"

text \<open>
  \<^verbatim>\<open>reflect.ValueOf(v).Elem().FieldByName(name)\<close>: the field of that name, the invalid
  Value (\<open>None\<close>) when the struct has none, a panic when \<^verbatim>\<open>v\<close> does not point to a
  struct.
\<close>

definition FieldByName :: "'f slot \<Rightarrow> string \<Rightarrow> 'f field option outcome" where
  "FieldByName v name =
     (case v of SStruct fs \<Rightarrow> Returns (map_of fs name) | _ \<Rightarrow> Panics ReflectPanic)"

text \<open>The effect on the record of a write through the field's address.\<close>

fun storeField ::
  "(string \<times> bool \<times> 'f slot) list \<Rightarrow> string \<Rightarrow> 'f slot \<Rightarrow> (string \<times> bool \<times> 'f slot) list" where
  "storeField [] name x = []"
| "storeField ((n, e, y) # fs) name x =
     (if n = name then (n, e, x) # fs else (n, e, y) # storeField fs name x)"

fun store :: "'f slot \<Rightarrow> string \<Rightarrow> 'f slot \<Rightarrow> 'f slot" where
  "store (SStruct fs) name x = SStruct (storeField fs name x)"
| "store v name x = v"

text \<open>
  \<^verbatim>\<open>field.Addr().Interface()\<close>: the address of the field, a panic for a field that is
  not exported.
\<close>

definition AddrInterface :: "'f field \<Rightarrow> 'f slot outcome" where
  "AddrInterface field = (if fst field then Returns (snd field) else Panics ReflectPanic)"

text \<open>
  \<^verbatim>\<open>reflect.ValueOf(value)\<close> and its accessors \<^verbatim>\<open>Int\<close>, \<^verbatim>\<open>Uint\<close> and \<^verbatim>\<open>Float\<close>, which
  panic on a Value of another kind. A decoded value is \<^verbatim>\<open>nil\<close>, a \<^verbatim>\<open>bool\<close>, an
  \<^verbatim>\<open>int64\<close>, a \<^verbatim>\<open>float64\<close> or a \<^verbatim>\<open>string\<close>, so none has an unsigned kind.
\<close>

fun valueInt :: "'f value \<Rightarrow> int outcome" where
  "valueInt (VInt64 i) = Returns i"
| "valueInt _ = Panics ReflectPanic"

fun valueUint :: "'f value \<Rightarrow> int outcome" where
  "valueUint _ = Panics ReflectPanic"

fun valueFloat :: "'f value \<Rightarrow> 'f outcome" where
  "valueFloat (VFloat64 x) = Returns x"
| "valueFloat _ = Panics ReflectPanic"

text \<open>
  \<^verbatim>\<open>field.Set(value)\<close>: the field must be settable and the value valid and assignable
  to the field's type.
\<close>

fun reflectSet :: "'f field \<Rightarrow> 'f value \<Rightarrow> 'f slot outcome" where
  "reflectSet (False, s) x = Panics ReflectPanic"
| "reflectSet (True, s) VNil = Panics ReflectPanic"
| "reflectSet (True, SBool _) (VBool b) = Returns (SBool b)"
| "reflectSet (True, SString _) (VString t) = Returns (SString t)"
| "reflectSet (True, SIface _) x = Returns (SIface x)"
| "reflectSet (True, s) x = Panics ReflectPanic"

text \<open>
  \<^verbatim>\<open>setField\<close>, by the kind of the field. \<^verbatim>\<open>SetInt\<close>, \<^verbatim>\<open>SetUint\<close> and \<^verbatim>\<open>SetFloat\<close>
  truncate to the width of the field and panic on a field that is not settable.
\<close>

definition setField :: "'f externals \<Rightarrow> 'f field \<Rightarrow> 'f value \<Rightarrow> 'f slot outcome" where
  "setField ext field val =
     (case snd field of
        SInt k _ \<Rightarrow>
          (case valueInt val of
             Panics p \<Rightarrow> Panics p
           | Returns x \<Rightarrow>
               if fst field then Returns (SInt k (signed_take_bit (int_bits k - 1) x))
               else Panics ReflectPanic)
      | SUint k _ \<Rightarrow>
          (case valueUint val of
             Panics p \<Rightarrow> Panics p
           | Returns x \<Rightarrow>
               if fst field then Returns (SUint k (take_bit (uint_bits k) x))
               else Panics ReflectPanic)
      | SFloat32 _ \<Rightarrow>
          (case valueFloat val of
             Panics p \<Rightarrow> Panics p
           | Returns x \<Rightarrow>
               if fst field then Returns (SFloat32 (float32 ext x)) else Panics ReflectPanic)
      | SFloat64 _ \<Rightarrow>
          (case valueFloat val of
             Panics p \<Rightarrow> Panics p
           | Returns x \<Rightarrow>
               if fst field then Returns (SFloat64 x) else Panics ReflectPanic)
      | _ \<Rightarrow> reflectSet field val)"

text \<open>
  The destination of a nested object: the address of the matched field, or a fresh
  \<^verbatim>\<open>dummyObject\<close> when the key matched no field.
\<close>

definition subDestination :: "'f field option \<Rightarrow> 'f slot outcome" where
  "subDestination field =
     (case field of Some f \<Rightarrow> AddrInterface f | None \<Rightarrow> Returns dummyObject)"

text \<open>
  The record after the nested call has written through that address; what went to the
  \<^verbatim>\<open>dummyObject\<close> is dropped.
\<close>

definition written :: "'f slot \<Rightarrow> string \<Rightarrow> 'f field option \<Rightarrow> 'f slot \<Rightarrow> 'f slot" where
  "written v name field x = (case field of Some f \<Rightarrow> store v name x | None \<Rightarrow> v)"

text \<open>
  \<^verbatim>\<open>if field.IsValid() { setField(field, reflect.ValueOf(value)) }\<close>: the record
  after the assignment of a decoded scalar.
\<close>

definition assignField ::
  "'f externals \<Rightarrow> 'f slot \<Rightarrow> string \<Rightarrow> 'f field option \<Rightarrow> 'f value \<Rightarrow> 'f slot outcome" where
  "assignField ext v name field val =
     (case field of
        None \<Rightarrow> Returns v
      | Some f \<Rightarrow>
          (case setField ext f val of
             Panics p \<Rightarrow> Panics p
           | Returns f' \<Rightarrow> Returns (store v name f')))"

section \<open>The object consumer\<close>

text \<open>
  \<^verbatim>\<open>consumeObject\<close> and its loop over the key/value pairs, \<^verbatim>\<open>consumePairs\<close>, whose
  arguments are the loop's variables: the element count \<^verbatim>\<open>length\<close>, the counter
  \<^verbatim>\<open>i\<close>, the cursor and the destination.
\<close>

function
  consumeObject ::
    "('f::zero) externals \<Rightarrow> string \<Rightarrow> int \<Rightarrow> 'f slot \<Rightarrow> (int \<times> error option \<times> 'f slot) outcome"
and
  consumePairs ::
    "('f::zero) externals \<Rightarrow> string \<Rightarrow> int \<Rightarrow> int \<Rightarrow> int \<Rightarrow> 'f slot
       \<Rightarrow> (int \<times> error option \<times> 'f slot) outcome"
where
  "consumeObject ext data offset v =
     (if \<not> checkType data CHR ''O'' offset
      then Returns (- 1, Some (ErrorString ''not an object''), v)
      else case consumeStringRealPart ext data (offset + 2) of
        Panics p \<Rightarrow> Panics p
      | Returns (className, offset1, Some err) \<Rightarrow> Returns (- 1, Some err, v)
      | Returns (className, offset1, None) \<Rightarrow>
          (case consumeIntPart data offset1 of
             Panics p \<Rightarrow> Panics p
           | Returns (len, offset2, Some err) \<Rightarrow> Returns (- 1, Some err, v)
           | Returns (len, offset2, None) \<Rightarrow> consumePairs ext data len 0 (offset2 + 1) v))"
| "consumePairs ext data len i offset v =
     (if i < len then
        (case consumeString ext data offset of
           Panics p \<Rightarrow> Panics p
         | Returns (key, offset1, Some err) \<Rightarrow> Returns (- 1, Some err, v)
         | Returns (key, offset1, None) \<Rightarrow>
             (case FieldByName v (upperCaseFirstLetter key) of
                Panics p \<Rightarrow> Panics p
              | Returns field \<Rightarrow>
                  if offset1 < 0 \<or> int (length data) \<le> offset1 then Panics IndexOutOfRange
                  else if data ! nat offset1 = CHR ''O'' then
                    (case subDestination field of
                       Panics p \<Rightarrow> Panics p
                     | Returns subV \<Rightarrow>
                         (case consumeObject ext data offset1 subV of
                            Panics p \<Rightarrow> Panics p
                          | Returns (offset2, Some err, subV') \<Rightarrow>
                              Returns (- 1, Some err,
                                written v (upperCaseFirstLetter key) field subV')
                          | Returns (offset2, None, subV') \<Rightarrow>
                              consumePairs ext data len (i + 1) offset2
                                (written v (upperCaseFirstLetter key) field subV')))
                  else
                    (case consumeNext ext data offset1 of
                       Panics p \<Rightarrow> Panics p
                     | Returns (val, offset2, Some err) \<Rightarrow> Returns (- 1, Some err, v)
                     | Returns (val, offset2, None) \<Rightarrow>
                         (case assignField ext v (upperCaseFirstLetter key) field val of
                            Panics p \<Rightarrow> Panics p
                          | Returns v' \<Rightarrow> consumePairs ext data len (i + 1) offset2 v'))))
      else Returns (offset + 1, None, v))"
  by pat_completeness auto

section \<open>Kinds of fields and of decoded values\<close>

text \<open>
  Section 4.5, step 5d of the specification and the \<^verbatim>\<open>FieldTypeMismatch\<close> of its
  section 7 ("decoded value kind not assignable to matched field"), as a relation
  between the kind of a field and a decoded value. It follows the specification's words
  and not \<^verbatim>\<open>setField\<close>: a numeric field, signed, unsigned or floating-point, takes
  every numeric value, by numeric coercion; a boolean field takes a boolean, a string
  field a text, an interface field every value; a record takes no scalar. A field of
  another type may take a decoded value (a \<^verbatim>\<open>uint\<close> an integer, a pointer \<^verbatim>\<open>nil\<close>), so
  none is excluded for it.
\<close>

fun isNumber :: "'f value \<Rightarrow> bool" where
  "isNumber (VInt64 i) = True"
| "isNumber (VFloat64 x) = True"
| "isNumber v = False"

fun assignableOrCoercible :: "'f slot \<Rightarrow> 'f value \<Rightarrow> bool" where
  "assignableOrCoercible (SInt k x) val = isNumber val"
| "assignableOrCoercible (SUint k x) val = isNumber val"
| "assignableOrCoercible (SFloat32 x) val = isNumber val"
| "assignableOrCoercible (SFloat64 x) val = isNumber val"
| "assignableOrCoercible (SBool x) val = (case val of VBool b \<Rightarrow> True | _ \<Rightarrow> False)"
| "assignableOrCoercible (SString x) val = (case val of VString t \<Rightarrow> True | _ \<Rightarrow> False)"
| "assignableOrCoercible (SIface x) val = True"
| "assignableOrCoercible (SStruct fs) val = False"
| "assignableOrCoercible SOther val = True"

section \<open>Narrower records\<close>

text \<open>The record without the fields whose names are in \<open>S\<close>.\<close>

definition withoutFields :: "string set \<Rightarrow> 'f slot \<Rightarrow> 'f slot" where
  "withoutFields S v =
     (case v of SStruct fs \<Rightarrow> SStruct (filter (\<lambda>(n, f). n \<notin> S) fs) | _ \<Rightarrow> v)"

section \<open>Buffers that agree on a range\<close>

text \<open>
  Two buffers of the same length that hold the same byte at every index from \<open>lo\<close> up
  to, and not including, \<open>hi\<close>.
\<close>

definition agreeOn :: "string \<Rightarrow> string \<Rightarrow> int \<Rightarrow> int \<Rightarrow> bool" where
  "agreeOn data data' lo hi =
     (length data' = length data \<and>
      (\<forall>j. lo \<le> int j \<and> int j < hi \<and> j < length data \<longrightarrow> data' ! j = data ! j))"

section \<open>An instance of the parameters\<close>

text \<open>
  For the concrete inputs below: a buffer of plain ASCII text without escape sequences,
  which the raw-decode helper returns as it is, floats carried by the reals, and
  \<^verbatim>\<open>strconv.ParseFloat\<close> given on the one literal the examples use.
\<close>

definition plainText :: "real externals" where
  "plainText =
     \<lparr>ParseFloat =
        (\<lambda>s. if s = ''3.5'' then Inr 3.5 else Inl (NumError ''ParseFloat'' s ErrSyntax)),
      float32 = (\<lambda>x. x),
      DecodePHPString = (\<lambda>d. d)\<rparr>"

text \<open>
  A second instance, for an example of a raw-decode helper that does not return the
  buffer as it is: this one drops every backslash.
\<close>

definition dropsBackslashes :: "real externals" where
  "dropsBackslashes =
     \<lparr>ParseFloat = (\<lambda>s. Inl (NumError ''ParseFloat'' s ErrSyntax)),
      float32 = (\<lambda>x. x),
      DecodePHPString = filter (\<lambda>c. c \<noteq> CHR 0x5C)\<rparr>"

section \<open>The wire format\<close>

text \<open>
  Modelled from the spec: nothing in \<^verbatim>\<open>consume.go\<close> writes the wire format. Section 6
  gives its grammar. A null is \<^verbatim>\<open>N;\<close>, a boolean \<^verbatim>\<open>b:\<close>, \<^verbatim>\<open>0\<close> or \<^verbatim>\<open>1\<close>, and \<^verbatim>\<open>;\<close>,
  an integer \<^verbatim>\<open>i:\<close>, its digits and \<^verbatim>\<open>;\<close>, a float \<^verbatim>\<open>d:\<close>, its decimal text and \<^verbatim>\<open>;\<close>.
  A string is \<^verbatim>\<open>s:\<close>, its length, \<^verbatim>\<open>:\<close>, its bytes between double quotes, and \<^verbatim>\<open>;\<close>. An
  object is \<^verbatim>\<open>O:\<close>, the length of its class name, \<^verbatim>\<open>:\<close>, the class name between double
  quotes, \<^verbatim>\<open>:\<close>, the count of its pairs, \<^verbatim>\<open>:{\<close>, the pairs, each a string and a value,
  and \<^verbatim>\<open>}\<close>; "\<^verbatim>\<open>length\<close>/\<^verbatim>\<open>count\<close> are decimal ASCII integers followed by \<^verbatim>\<open>:\<close>". A
  node of the grammar is a term of the type \<open>wire\<close>, a float being given by its decimal
  text and an object by its class name and its key/value pairs, and \<open>encode\<close> writes the
  term as the grammar says.
\<close>

datatype wire = WNull | WBool bool | WInt int | WFloat string | WString string
  | WObject string wpairs
and wpairs = WEnd | WPair string wire wpairs

text \<open>A natural number and an integer in decimal.\<close>

definition digitChar :: "nat \<Rightarrow> char" where
  "digitChar d = char_of (48 + d)"

fun showNat :: "nat \<Rightarrow> string" where
  "showNat n = (if n < 10 then [digitChar n] else showNat (n div 10) @ [digitChar (n mod 10)])"

declare showNat.simps [simp del]

definition showInt :: "int \<Rightarrow> string" where
  "showInt i = (if i < 0 then CHR ''-'' # showNat (nat (- i)) else showNat (nat i))"

definition encodeString :: "string \<Rightarrow> string" where
  \<open>encodeString s = ''s:'' @ showNat (length s) @ '':"'' @ s @ ''";''\<close>

primrec count :: "wpairs \<Rightarrow> nat" where
  "count WEnd = 0"
| "count (WPair k x ps) = Suc (count ps)"

text \<open>An object up to and including its \<^verbatim>\<open>{\<close>.\<close>

definition encodeHeader :: "string \<Rightarrow> nat \<Rightarrow> string" where
  \<open>encodeHeader c n = ''O:'' @ showNat (length c) @ '':"'' @ c @ ''":'' @ showNat n @ '':{''\<close>

primrec encode :: "wire \<Rightarrow> string" and encodePairs :: "wpairs \<Rightarrow> string" where
  "encode WNull = ''N;''"
| "encode (WBool b) = ''b:'' @ (if b then ''1'' else ''0'') @ '';''"
| "encode (WInt i) = ''i:'' @ showInt i @ '';''"
| "encode (WFloat t) = ''d:'' @ t @ '';''"
| "encode (WString s) = encodeString s"
| "encode (WObject c ps) = encodeHeader c (count ps) @ encodePairs ps @ ''}''"
| "encodePairs WEnd = []"
| "encodePairs (WPair k x ps) = encodeString k @ encode x @ encodePairs ps"

text \<open>
  A node is well formed when its numbers are literals of their kind (section 4.2): an
  integer fits 64 bits, signed, and the text of a float is one that the host's parser
  accepts, not empty and without the terminator \<^verbatim>\<open>;\<close>. The values of an object are
  well formed in turn; a key, a class name and a string are any bytes.
\<close>

primrec wellFormed :: "'f externals \<Rightarrow> wire \<Rightarrow> bool"
  and wellFormedPairs :: "'f externals \<Rightarrow> wpairs \<Rightarrow> bool" where
  "wellFormed ext WNull = True"
| "wellFormed ext (WBool b) = True"
| "wellFormed ext (WInt i) = (- (2 ^ 63) \<le> i \<and> i < 2 ^ 63)"
| "wellFormed ext (WFloat t) = (t \<noteq> [] \<and> CHR '';'' \<notin> set t \<and> \<not> isl (ParseFloat ext t))"
| "wellFormed ext (WString s) = True"
| "wellFormed ext (WObject c ps) = wellFormedPairs ext ps"
| "wellFormedPairs ext WEnd = True"
| "wellFormedPairs ext (WPair k x ps) = (wellFormed ext x \<and> wellFormedPairs ext ps)"

text \<open>The keys of an object, in wire order.\<close>

primrec keys :: "wpairs \<Rightarrow> string list" where
  "keys WEnd = []"
| "keys (WPair k x ps) = k # keys ps"

text \<open>
  The Decoded Value of a scalar node (section 3). An object is no scalar: it is decoded
  into a destination, and \<open>valueOf\<close> is not used for it.
\<close>

fun valueOf :: "'f externals \<Rightarrow> wire \<Rightarrow> 'f value" where
  "valueOf ext WNull = VNil"
| "valueOf ext (WBool b) = VBool b"
| "valueOf ext (WInt i) = VInt64 i"
| "valueOf ext (WFloat t) = VFloat64 (projr (ParseFloat ext t))"
| "valueOf ext (WString s) = VString s"
| "valueOf ext (WObject c ps) = VNil"

fun isObject :: "wire \<Rightarrow> bool" where
  "isObject (WObject c ps) = True"
| "isObject w = False"

section \<open>Progress of the scalar consumers\<close>

lemma scan_range:
  "scan xs b i = - 1 \<or> (int i \<le> scan xs b i \<and> scan xs b i < int i + int (length xs))"
  by (induction xs b i rule: scan.induct) auto

lemma findByte_range:
  "findByte data b off = - 1 \<or>
     (off \<le> findByte data b off \<and> 0 \<le> findByte data b off \<and>
      findByte data b off < int (length data))"
  using scan_range[of "drop (nat off) data" b "nat off"]
  by (cases "0 \<le> off") (auto simp: findByte_def)

lemma consumeStringUntilByte_found:
  assumes "consumeStringUntilByte data b off = Returns (s, n)"
  shows "(n = - 1 \<and> s = []) \<or> (0 \<le> off \<and> off \<le> n \<and> n < int (length data))"
  using assms findByte_range[of data b off]
  by (auto simp: consumeStringUntilByte_def Let_def split: if_splits)

lemma Atoi_empty: "Atoi [] = Inl (NumError ''Atoi'' [] ErrSyntax)"
  by (simp add: Atoi_def)

lemma consumeIntPart_ok:
  assumes "consumeIntPart data off = Returns (v, r, None)"
  shows "0 \<le> off \<and> off < r \<and> r \<le> int (length data)"
  using assms
  by (auto simp: consumeIntPart_def Atoi_empty split: outcome.splits sum.splits prod.splits
      dest!: consumeStringUntilByte_found)

lemma consumeStringRealPart_ok:
  assumes "consumeStringRealPart ext data off = Returns (s, r, None)"
  shows "0 \<le> off \<and> off + 3 < r"
  using assms
  by (auto simp: consumeStringRealPart_def Let_def
      split: outcome.splits option.splits prod.splits if_splits dest!: consumeIntPart_ok)

lemma consumeString_ok:
  assumes "consumeString ext data off = Returns (s, r, None)"
  shows "0 \<le> off \<and> off < int (length data) \<and> off + 5 < r"
  using assms
  by (auto simp: consumeString_def checkType_def split: if_splits
      dest!: consumeStringRealPart_ok)

lemma consumeInt_ok:
  assumes "consumeInt data off = Returns (v, r, None)"
  shows "0 \<le> off \<and> off + 2 < r \<and> r \<le> int (length data)"
  using assms
  by (auto simp: consumeInt_def checkType_def Atoi_empty
      split: outcome.splits sum.splits prod.splits if_splits
      dest!: consumeStringUntilByte_found)

lemma consumeFloat_ok:
  assumes "consumeFloat ext data off = Returns (v, r, None)"
  shows "0 \<le> off \<and> off + 2 < r \<and> r \<le> int (length data)"
  using assms
  by (auto simp: consumeFloat_def checkType_def strconvParseFloat_def
      split: outcome.splits sum.splits prod.splits if_splits
      dest!: consumeStringUntilByte_found)

lemma consumeNext_ok:
  assumes "consumeNext ext data off = Returns (v, r, None)"
  shows "0 \<le> off \<and> off < int (length data) \<and> off < r"
  using assms
  by (auto simp: consumeNext_def boxed_def consumeBool_def consumeNil_def
      split: outcome.splits prod.splits if_splits
      dest!: consumeString_ok consumeInt_ok consumeFloat_ok)

section \<open>Termination of the object consumer\<close>

text \<open>
  Every call in the recursion starts at a cursor inside the buffer and further on than
  its caller's, so the distance to the end of the buffer decreases. The cursor after a
  nested object is the nested call's result: that it lies further on is shown first,
  wherever the recursion is defined.
\<close>

lemma consume_dom_forward:
  "consumeObject_consumePairs_dom (Inl (ext, data, off, v)) \<Longrightarrow>
     consumeObject ext data off v = Returns (r, None, v') \<Longrightarrow> off < r"
  "consumeObject_consumePairs_dom (Inr (ext, data, len, i, off, v)) \<Longrightarrow>
     consumePairs ext data len i off v = Returns (r, None, v') \<Longrightarrow> off < r"
proof (induction arbitrary: r v' and r v' rule: consumeObject_consumePairs.pinduct)
  case (1 ext data offset v)
  from "1.prems" "1.hyps" obtain cn o1 n o2 where
    ct: "checkType data CHR ''O'' offset" and
    a: "consumeStringRealPart ext data (offset + 2) = Returns (cn, o1, None)" and
    b: "consumeIntPart data o1 = Returns (n, o2, None)" and
    c: "consumePairs ext data n 0 (o2 + 1) v = Returns (r, None, v')"
    by (auto simp: consumeObject.psimps split: if_splits outcome.splits prod.splits option.splits)
  from "1.IH" ct a b c have "o2 + 1 < r" by fastforce
  with consumeStringRealPart_ok[OF a] consumeIntPart_ok[OF b] show ?case by linarith
next
  case (2 ext data len i offset v)
  note eq = consumePairs.psimps[OF "2.hyps"]
  note res = "2.prems"
  show ?case
  proof (cases "i < len")
    case False
    with res eq show ?thesis by simp
  next
    case lt: True
    show ?thesis
    proof (cases "consumeString ext data offset")
      case (Panics p)
      with res lt show ?thesis by (simp add: eq)
    next
      case (Returns kr)
      obtain key o1 e1 where kr: "kr = (key, o1, e1)" by (cases kr)
      show ?thesis
      proof (cases e1)
        case (Some e)
        with res lt Returns kr show ?thesis by (simp add: eq)
      next
        case None
        note a = Returns[unfolded kr None]
        note s = consumeString_ok[OF a]
        show ?thesis
        proof (cases "FieldByName v (upperCaseFirstLetter key)")
          case (Panics p)
          with res lt a show ?thesis by (simp add: eq)
        next
          case f: (Returns field)
          show ?thesis
          proof (cases "o1 < 0 \<or> int (length data) \<le> o1")
            case True
            with res lt a f show ?thesis by (simp add: eq)
          next
            case rng: False
            show ?thesis
            proof (cases "data ! nat o1 = CHR ''O''")
              case isO: True
              show ?thesis
              proof (cases "subDestination field")
                case (Panics p)
                with res lt a f rng isO show ?thesis by (simp add: eq)
              next
                case sv: (Returns subV)
                show ?thesis
                proof (cases "consumeObject ext data o1 subV")
                  case (Panics p)
                  with res lt a f rng isO sv show ?thesis by (simp add: eq)
                next
                  case (Returns nr)
                  obtain o2 e2 subV' where nr: "nr = (o2, e2, subV')" by (cases nr)
                  show ?thesis
                  proof (cases e2)
                    case (Some e)
                    with res lt a f rng isO sv Returns nr show ?thesis by (simp add: eq)
                  next
                    case None
                    note n = Returns[unfolded nr None]
                    from "2.IH"(1)[OF lt a refl refl refl f rng isO sv n] have "o1 < o2" .
                    moreover from res lt a f rng isO sv n
                    have k: "consumePairs ext data len (i + 1) o2
                       (written v (upperCaseFirstLetter key) field subV') = Returns (r, None, v')"
                      by (simp add: eq)
                    from "2.IH"(2)[OF lt a refl refl refl f rng isO sv n refl refl refl k]
                    have "o2 < r" .
                    ultimately show ?thesis using s by linarith
                  qed
                qed
              qed
            next
              case notO: False
              show ?thesis
              proof (cases "consumeNext ext data o1")
                case (Panics p)
                with res lt a f rng notO show ?thesis by (simp add: eq)
              next
                case (Returns nr)
                obtain val o2 e2 where nr: "nr = (val, o2, e2)" by (cases nr)
                show ?thesis
                proof (cases e2)
                  case (Some e)
                  with res lt a f rng notO Returns nr show ?thesis by (simp add: eq)
                next
                  case None
                  note n = Returns[unfolded nr None]
                  show ?thesis
                  proof (cases "assignField ext v (upperCaseFirstLetter key) field val")
                    case (Panics p)
                    with res lt a f rng notO n show ?thesis by (simp add: eq)
                  next
                    case sf: (Returns v2)
                    from res lt a f rng notO n sf
                    have k: "consumePairs ext data len (i + 1) o2 v2 = Returns (r, None, v')"
                      by (simp add: eq)
                    from "2.IH"(3)[OF lt a refl refl refl f rng notO n refl refl refl sf k]
                    have "o2 < r" .
                    with consumeNext_ok[OF n] s show ?thesis by linarith
                  qed
                qed
              qed
            qed
          qed
        qed
      qed
    qed
  qed
qed

termination consumeObject
proof (relation "measure (\<lambda>x. case x of
          Inl (ext, data, offset, v) \<Rightarrow> nat (int (length data) - offset)
        | Inr (ext, data, len, i, offset, v) \<Rightarrow> nat (int (length data) - offset))",
    goal_cases)
  case 1
  show ?case by simp
next
  case 2
  then show ?case
    by (auto simp: checkType_def dest!: consumeStringRealPart_ok consumeIntPart_ok)
next
  case 3
  then show ?case
    by (auto dest!: consumeString_ok)
next
  case 4
  then show ?case
    by (auto dest!: consumeString_ok dest: consume_dom_forward(1))
next
  case 5
  then show ?case
    by (auto dest!: consumeString_ok consumeNext_ok)
qed

declare consumeObject.simps [simp del] consumePairs.simps [simp del]


section \<open>Case analysis and induction for the object consumer\<close>

text \<open>
  One step of \<^verbatim>\<open>consumeObject\<close> and of its loop, by the outcome of each call the step
  makes, and the induction along the recursion with the facts of the path as premises.
\<close>

lemma consumeObject_cases [case_names NotObject NamePanic NameError CountPanic CountError Pairs]:
  fixes ext :: "('f::zero) externals"
  obtains
    "\<not> checkType data CHR ''O'' offset"
      "consumeObject ext data offset v = Returns (- 1, Some (ErrorString ''not an object''), v)"
  | p where "checkType data CHR ''O'' offset"
      "consumeStringRealPart ext data (offset + 2) = Panics p"
      "consumeObject ext data offset v = Panics p"
  | cn o1 e where "checkType data CHR ''O'' offset"
      "consumeStringRealPart ext data (offset + 2) = Returns (cn, o1, Some e)"
      "consumeObject ext data offset v = Returns (- 1, Some e, v)"
  | cn o1 p where "checkType data CHR ''O'' offset"
      "consumeStringRealPart ext data (offset + 2) = Returns (cn, o1, None)"
      "consumeIntPart data o1 = Panics p"
      "consumeObject ext data offset v = Panics p"
  | cn o1 n o2 e where "checkType data CHR ''O'' offset"
      "consumeStringRealPart ext data (offset + 2) = Returns (cn, o1, None)"
      "consumeIntPart data o1 = Returns (n, o2, Some e)"
      "consumeObject ext data offset v = Returns (- 1, Some e, v)"
  | cn o1 n o2 where "checkType data CHR ''O'' offset"
      "consumeStringRealPart ext data (offset + 2) = Returns (cn, o1, None)"
      "consumeIntPart data o1 = Returns (n, o2, None)"
      "consumeObject ext data offset v = consumePairs ext data n 0 (o2 + 1) v"
proof (cases "checkType data CHR ''O'' offset")
  case False
  then show ?thesis using that(1) by (simp add: consumeObject.simps)
next
  case ct: True
  show ?thesis
  proof (cases "consumeStringRealPart ext data (offset + 2)")
    case (Panics p)
    with ct show ?thesis using that(2) by (simp add: consumeObject.simps)
  next
    case (Returns x)
    obtain cn o1 e1 where x: "x = (cn, o1, e1)" by (cases x)
    show ?thesis
    proof (cases e1)
      case (Some e)
      with ct Returns x show ?thesis using that(3) by (simp add: consumeObject.simps)
    next
      case None
      note a = Returns[unfolded x None]
      show ?thesis
      proof (cases "consumeIntPart data o1")
        case (Panics p)
        with ct a show ?thesis using that(4) by (simp add: consumeObject.simps)
      next
        case (Returns y)
        obtain n o2 e2 where y: "y = (n, o2, e2)" by (cases y)
        show ?thesis
        proof (cases e2)
          case (Some e)
          with ct a Returns y show ?thesis using that(5) by (simp add: consumeObject.simps)
        next
          case None
          with ct a Returns y show ?thesis using that(6) by (simp add: consumeObject.simps)
        qed
      qed
    qed
  qed
qed


lemma consumePairs_cases
  [case_names Done KeyPanic KeyError FieldPanic TagOutOfRange AddrPanic NestedPanic NestedError
    NestedOk ScalarPanic ScalarError AssignPanic ScalarOk]:
  fixes ext :: "('f::zero) externals"
  obtains
    "\<not> i < len"
      "consumePairs ext data len i offset v = Returns (offset + 1, None, v)"
  | p where "i < len" "consumeString ext data offset = Panics p"
      "consumePairs ext data len i offset v = Panics p"
  | key o1 e where "i < len" "consumeString ext data offset = Returns (key, o1, Some e)"
      "consumePairs ext data len i offset v = Returns (- 1, Some e, v)"
  | key o1 p where "i < len" "consumeString ext data offset = Returns (key, o1, None)"
      "FieldByName v (upperCaseFirstLetter key) = Panics p"
      "consumePairs ext data len i offset v = Panics p"
  | key o1 field where "i < len" "consumeString ext data offset = Returns (key, o1, None)"
      "FieldByName v (upperCaseFirstLetter key) = Returns field"
      "o1 < 0 \<or> int (length data) \<le> o1"
      "consumePairs ext data len i offset v = Panics IndexOutOfRange"
  | key o1 field p where "i < len" "consumeString ext data offset = Returns (key, o1, None)"
      "FieldByName v (upperCaseFirstLetter key) = Returns field"
      "0 \<le> o1" "o1 < int (length data)" "data ! nat o1 = CHR ''O''"
      "subDestination field = Panics p"
      "consumePairs ext data len i offset v = Panics p"
  | key o1 field subV p where "i < len" "consumeString ext data offset = Returns (key, o1, None)"
      "FieldByName v (upperCaseFirstLetter key) = Returns field"
      "0 \<le> o1" "o1 < int (length data)" "data ! nat o1 = CHR ''O''"
      "subDestination field = Returns subV"
      "consumeObject ext data o1 subV = Panics p"
      "consumePairs ext data len i offset v = Panics p"
  | key o1 field subV o2 e subV' where "i < len"
      "consumeString ext data offset = Returns (key, o1, None)"
      "FieldByName v (upperCaseFirstLetter key) = Returns field"
      "0 \<le> o1" "o1 < int (length data)" "data ! nat o1 = CHR ''O''"
      "subDestination field = Returns subV"
      "consumeObject ext data o1 subV = Returns (o2, Some e, subV')"
      "consumePairs ext data len i offset v =
         Returns (- 1, Some e, written v (upperCaseFirstLetter key) field subV')"
  | key o1 field subV o2 subV' where "i < len"
      "consumeString ext data offset = Returns (key, o1, None)"
      "FieldByName v (upperCaseFirstLetter key) = Returns field"
      "0 \<le> o1" "o1 < int (length data)" "data ! nat o1 = CHR ''O''"
      "subDestination field = Returns subV"
      "consumeObject ext data o1 subV = Returns (o2, None, subV')"
      "consumePairs ext data len i offset v =
         consumePairs ext data len (i + 1) o2 (written v (upperCaseFirstLetter key) field subV')"
  | key o1 field p where "i < len" "consumeString ext data offset = Returns (key, o1, None)"
      "FieldByName v (upperCaseFirstLetter key) = Returns field"
      "0 \<le> o1" "o1 < int (length data)" "data ! nat o1 \<noteq> CHR ''O''"
      "consumeNext ext data o1 = Panics p"
      "consumePairs ext data len i offset v = Panics p"
  | key o1 field val o2 e where "i < len"
      "consumeString ext data offset = Returns (key, o1, None)"
      "FieldByName v (upperCaseFirstLetter key) = Returns field"
      "0 \<le> o1" "o1 < int (length data)" "data ! nat o1 \<noteq> CHR ''O''"
      "consumeNext ext data o1 = Returns (val, o2, Some e)"
      "consumePairs ext data len i offset v = Returns (- 1, Some e, v)"
  | key o1 field val o2 p where "i < len"
      "consumeString ext data offset = Returns (key, o1, None)"
      "FieldByName v (upperCaseFirstLetter key) = Returns field"
      "0 \<le> o1" "o1 < int (length data)" "data ! nat o1 \<noteq> CHR ''O''"
      "consumeNext ext data o1 = Returns (val, o2, None)"
      "assignField ext v (upperCaseFirstLetter key) field val = Panics p"
      "consumePairs ext data len i offset v = Panics p"
  | key o1 field val o2 v2 where "i < len"
      "consumeString ext data offset = Returns (key, o1, None)"
      "FieldByName v (upperCaseFirstLetter key) = Returns field"
      "0 \<le> o1" "o1 < int (length data)" "data ! nat o1 \<noteq> CHR ''O''"
      "consumeNext ext data o1 = Returns (val, o2, None)"
      "assignField ext v (upperCaseFirstLetter key) field val = Returns v2"
      "consumePairs ext data len i offset v = consumePairs ext data len (i + 1) o2 v2"
proof (cases "i < len")
  case False
  then show ?thesis using that(1) by (simp add: consumePairs.simps)
next
  case lt: True
  note eq = consumePairs.simps[of ext data len i offset v]
  show ?thesis
  proof (cases "consumeString ext data offset")
    case (Panics p)
    with lt show ?thesis using that(2) by (simp add: eq)
  next
    case (Returns kr)
    obtain key o1 e1 where kr: "kr = (key, o1, e1)" by (cases kr)
    show ?thesis
    proof (cases e1)
      case (Some e)
      with lt Returns kr show ?thesis using that(3) by (simp add: eq)
    next
      case None
      note a = Returns[unfolded kr None]
      show ?thesis
      proof (cases "FieldByName v (upperCaseFirstLetter key)")
        case (Panics p)
        with lt a show ?thesis using that(4) by (simp add: eq)
      next
        case f: (Returns field)
        show ?thesis
        proof (cases "o1 < 0 \<or> int (length data) \<le> o1")
          case True
          with lt a f show ?thesis using that(5) by (simp add: eq)
        next
          case False
          then have rng: "0 \<le> o1" "o1 < int (length data)" by auto
          show ?thesis
          proof (cases "data ! nat o1 = CHR ''O''")
            case isO: True
            show ?thesis
            proof (cases "subDestination field")
              case (Panics p)
              with lt a f rng isO show ?thesis using that(6) by (simp add: eq)
            next
              case sv: (Returns subV)
              show ?thesis
              proof (cases "consumeObject ext data o1 subV")
                case (Panics p)
                with lt a f rng isO sv show ?thesis using that(7) by (simp add: eq)
              next
                case (Returns nr)
                obtain o2 e2 subV' where nr: "nr = (o2, e2, subV')" by (cases nr)
                show ?thesis
                proof (cases e2)
                  case (Some e)
                  with lt a f rng isO sv Returns nr show ?thesis
                    using that(8) by (simp add: eq)
                next
                  case None
                  with lt a f rng isO sv Returns nr show ?thesis
                    using that(9) by (simp add: eq)
                qed
              qed
            qed
          next
            case notO: False
            show ?thesis
            proof (cases "consumeNext ext data o1")
              case (Panics p)
              with lt a f rng notO show ?thesis using that(10) by (simp add: eq)
            next
              case (Returns nr)
              obtain val o2 e2 where nr: "nr = (val, o2, e2)" by (cases nr)
              show ?thesis
              proof (cases e2)
                case (Some e)
                with lt a f rng notO Returns nr show ?thesis
                  using that(11) by (simp add: eq)
              next
                case None
                note n = Returns[unfolded nr None]
                show ?thesis
                proof (cases "assignField ext v (upperCaseFirstLetter key) field val")
                  case (Panics p)
                  with lt a f rng notO n show ?thesis using that(12) by (simp add: eq)
                next
                  case (Returns v2)
                  with lt a f rng notO n show ?thesis using that(13) by (simp add: eq)
                qed
              qed
            qed
          qed
        qed
      qed
    qed
  qed
qed

lemma consume_induct [case_names Object Pairs]:
  fixes ext :: "('f::zero) externals"
    and P :: "'f externals \<Rightarrow> string \<Rightarrow> int \<Rightarrow> 'f slot \<Rightarrow> bool"
    and Q :: "'f externals \<Rightarrow> string \<Rightarrow> int \<Rightarrow> int \<Rightarrow> int \<Rightarrow> 'f slot \<Rightarrow> bool"
  assumes obj: "\<And>ext data offset v.
      (\<And>cn o1 n o2. checkType data CHR ''O'' offset \<Longrightarrow>
         consumeStringRealPart ext data (offset + 2) = Returns (cn, o1, None) \<Longrightarrow>
         consumeIntPart data o1 = Returns (n, o2, None) \<Longrightarrow> Q ext data n 0 (o2 + 1) v) \<Longrightarrow>
      P ext data offset v"
    and pairs: "\<And>ext data len i offset v.
      (\<And>key o1 field subV. i < len \<Longrightarrow>
         consumeString ext data offset = Returns (key, o1, None) \<Longrightarrow>
         FieldByName v (upperCaseFirstLetter key) = Returns field \<Longrightarrow>
         0 \<le> o1 \<Longrightarrow> o1 < int (length data) \<Longrightarrow> data ! nat o1 = CHR ''O'' \<Longrightarrow>
         subDestination field = Returns subV \<Longrightarrow> P ext data o1 subV) \<Longrightarrow>
      (\<And>key o1 field subV o2 subV'. i < len \<Longrightarrow>
         consumeString ext data offset = Returns (key, o1, None) \<Longrightarrow>
         FieldByName v (upperCaseFirstLetter key) = Returns field \<Longrightarrow>
         0 \<le> o1 \<Longrightarrow> o1 < int (length data) \<Longrightarrow> data ! nat o1 = CHR ''O'' \<Longrightarrow>
         subDestination field = Returns subV \<Longrightarrow>
         consumeObject ext data o1 subV = Returns (o2, None, subV') \<Longrightarrow>
         Q ext data len (i + 1) o2 (written v (upperCaseFirstLetter key) field subV')) \<Longrightarrow>
      (\<And>key o1 field val o2 v2. i < len \<Longrightarrow>
         consumeString ext data offset = Returns (key, o1, None) \<Longrightarrow>
         FieldByName v (upperCaseFirstLetter key) = Returns field \<Longrightarrow>
         0 \<le> o1 \<Longrightarrow> o1 < int (length data) \<Longrightarrow> data ! nat o1 \<noteq> CHR ''O'' \<Longrightarrow>
         consumeNext ext data o1 = Returns (val, o2, None) \<Longrightarrow>
         assignField ext v (upperCaseFirstLetter key) field val = Returns v2 \<Longrightarrow>
         Q ext data len (i + 1) o2 v2) \<Longrightarrow>
      Q ext data len i offset v"
  shows "P ext data offset v" and "Q ext data len i offset v"
proof (induction ext data offset v and ext data len i offset v
    rule: consumeObject_consumePairs.induct)
  case (1 ext data offset v)
  show ?case
    by (rule obj) (rule "1.IH"[OF _ _ refl refl refl _ refl refl refl], simp_all)
next
  case (2 ext data len i offset v)
  show ?case
  proof (rule pairs, goal_cases)
    case (1 key o1 field subV)
    then show ?case
      by (intro "2.IH"(1)[OF _ _ refl refl refl]) auto
  next
    case (2 key o1 field subV o2 subV')
    then show ?case
      by (intro "2.IH"(2)[OF _ _ refl refl refl _ _ _ _ _ refl refl refl]) auto
  next
    case (3 key o1 field val o2 v2)
    then show ?case
      by (intro "2.IH"(3)[OF _ _ refl refl refl _ _ _ _ refl refl refl]) auto
  qed
qed

section \<open>Valid literals\<close>

text \<open>
  C6: decoding valid literals yields the value and the exact offset. \<^verbatim>\<open>i:42;\<close> gives
  42 and offset 5, \<^verbatim>\<open>b:1;\<close> gives true and offset 4, \<^verbatim>\<open>N;\<close> gives null and offset 2.
  \<^verbatim>\<open>d:3.5;\<close> gives offset 6 and the float that \<^verbatim>\<open>strconv.ParseFloat\<close> returns for the
  text \<^verbatim>\<open>3.5\<close>. \<^verbatim>\<open>s:5:"hello";\<close>, a buffer the raw-decode helper leaves as it is,
  gives the five characters \<^verbatim>\<open>hello\<close> and offset 12, one past the final semicolon.
\<close>

theorem valid_literals:
  assumes "ParseFloat ext ''3.5'' = Inr x"
    and \<open>DecodePHPString ext ''s:5:"hello";'' = ''s:5:"hello";''\<close>
  shows \<open>consumeInt ''i:42;'' 0 = Returns (42, 5, None) \<and>
    consumeFloat ext ''d:3.5;'' 0 = Returns (x, 6, None) \<and>
    consumeBool ''b:1;'' 0 = Returns (True, 4, None) \<and>
    consumeNil ''N;'' 0 = Returns (VNil, 2, None) \<and>
    consumeString ext ''s:5:"hello";'' 0 = Returns (''hello'', 12, None) \<and>
    length ''hello'' = 5 \<and> int (length ''s:5:"hello";'') = 12\<close>
proof -
  have i: "consumeInt ''i:42;'' 0 = Returns (42, 5, None)"
    by (simp add: consumeInt_def checkType_def consumeStringUntilByte_def findByte_def
        slice_def Atoi_def isDigit_def)
  have d: "consumeFloat ext ''d:3.5;'' 0 = Returns (x, 6, None)"
    using assms(1)
    by (simp add: consumeFloat_def checkType_def consumeStringUntilByte_def findByte_def
        slice_def strconvParseFloat_def)
  have b: "consumeBool ''b:1;'' 0 = Returns (True, 4, None)"
    by (simp add: consumeBool_def checkType_def)
  have n: "consumeNil ''N;'' 0 = Returns (VNil, 2, None)"
    by (simp add: consumeNil_def checkType_def)
  have s: \<open>consumeString ext ''s:5:"hello";'' 0 = Returns (''hello'', 12, None)\<close>
    using assms(2)
    by (simp add: consumeString_def consumeStringRealPart_def consumeIntPart_def
        checkType_def consumeStringUntilByte_def findByte_def slice_def Atoi_def isDigit_def)
  from i d b n s show ?thesis by simp
qed

theorem valid_literals_witness:
  \<open>ParseFloat plainText ''3.5'' = Inr 3.5 \<and>
   DecodePHPString plainText ''s:5:"hello";'' = ''s:5:"hello";'' \<and>
   consumeInt ''i:42;'' 0 = Returns (42, 5, None) \<and>
   consumeFloat plainText ''d:3.5;'' 0 = Returns (3.5, 6, None) \<and>
   consumeBool ''b:1;'' 0 = Returns (True, 4, None) \<and>
   (consumeNil ''N;'' 0 :: (real value \<times> int \<times> error option) outcome) = Returns (VNil, 2, None) \<and>
   consumeString plainText ''s:5:"hello";'' 0 = Returns (''hello'', 12, None)\<close>
proof -
  have p: "ParseFloat plainText ''3.5'' = Inr 3.5"
    by (simp add: plainText_def)
  have q: \<open>DecodePHPString plainText ''s:5:"hello";'' = ''s:5:"hello";''\<close>
    by (simp add: plainText_def)
  from valid_literals[OF p q] p q show ?thesis by simp
qed

section \<open>The dispatcher\<close>

text \<open>
  C5: for every buffer and every cursor (a byte index, so not negative),
  \<^verbatim>\<open>consumeNext\<close> fails with the error \<^verbatim>\<open>corrupt\<close> when the cursor is at or past the
  end of the buffer. Otherwise, when the tag byte at the cursor is none of \<^verbatim>\<open>N\<close>,
  \<^verbatim>\<open>b\<close>, \<^verbatim>\<open>i\<close>, \<^verbatim>\<open>d\<close>, \<^verbatim>\<open>s\<close>, it fails with an error whose message ends with the
  rest of the buffer from the tag on; otherwise it returns exactly what the consumer of
  that tag returns, converted to \<^verbatim>\<open>interface{}\<close>.
\<close>

theorem consumeNext_dispatch:
  fixes ext :: "('f::zero) externals"
  assumes "0 \<le> offset"
  shows "(int (length data) \<le> offset \<longrightarrow>
            consumeNext ext data offset = Returns (VNil, - 1, Some (ErrorString ''corrupt''))) \<and>
         (offset < int (length data) \<longrightarrow>
            (data ! nat offset \<notin> {CHR ''N'', CHR ''b'', CHR ''i'', CHR ''d'', CHR ''s''} \<longrightarrow>
               consumeNext ext data offset =
                 Returns (VNil, - 1,
                   Some (ErrorString (''can not consume type: '' @ drop (nat offset) data))) \<and>
               hd (drop (nat offset) data) = data ! nat offset) \<and>
            (data ! nat offset = CHR ''N'' \<longrightarrow>
               consumeNext ext data offset = consumeNil data offset) \<and>
            (data ! nat offset = CHR ''b'' \<longrightarrow>
               consumeNext ext data offset = boxed VBool (consumeBool data offset)) \<and>
            (data ! nat offset = CHR ''i'' \<longrightarrow>
               consumeNext ext data offset = boxed VInt64 (consumeInt data offset)) \<and>
            (data ! nat offset = CHR ''d'' \<longrightarrow>
               consumeNext ext data offset = boxed VFloat64 (consumeFloat ext data offset)) \<and>
            (data ! nat offset = CHR ''s'' \<longrightarrow>
               consumeNext ext data offset = boxed VString (consumeString ext data offset)))"
proof -
  have tail: "hd (drop (nat offset) data) = data ! nat offset" if "offset < int (length data)"
    using that assms by (simp add: hd_drop_conv_nth)
  show ?thesis
    using assms tail by (simp add: consumeNext_def)
qed

theorem consumeNext_dispatch_witness:
  "(0::int) \<le> 5 \<and> int (length ''i:1;b:1;'') \<le> 8 \<and>
   consumeNext plainText ''i:1;b:1;'' 8 = Returns (VNil, - 1, Some (ErrorString ''corrupt'')) \<and>
   consumeNext plainText ''a:0:{}'' 0 =
     Returns (VNil, - 1, Some (ErrorString ''can not consume type: a:0:{}'')) \<and>
   consumeNext plainText ''i:1;b:1;'' 4 = boxed VBool (consumeBool ''i:1;b:1;'' 4) \<and>
   consumeNext plainText ''i:1;b:1;'' 4 = Returns (VBool True, 8, None)"
proof -
  have a: "consumeNext plainText ''i:1;b:1;'' 8 = Returns (VNil, - 1, Some (ErrorString ''corrupt''))"
    using consumeNext_dispatch[of 8 "''i:1;b:1;''" plainText] by simp
  have b: "consumeNext plainText ''a:0:{}'' 0 =
     Returns (VNil, - 1, Some (ErrorString ''can not consume type: a:0:{}''))"
    using consumeNext_dispatch[of 0 "''a:0:{}''" plainText] by simp
  have c: "consumeNext plainText ''i:1;b:1;'' 4 = boxed VBool (consumeBool ''i:1;b:1;'' 4)"
    using consumeNext_dispatch[of 4 "''i:1;b:1;''" plainText] by simp
  have d: "boxed VBool (consumeBool ''i:1;b:1;'' 4) = Returns (VBool True, 8, None)"
    by (simp add: boxed_def consumeBool_def checkType_def)
  from a b c d show ?thesis by simp
qed

section \<open>The length-prefixed payload\<close>

text \<open>
  C9: \<^verbatim>\<open>consumeStringRealPart\<close> does not always succeed or return its error. When the
  count field parses and the declared length is negative, or reaches past the end of the
  decoded text, the slice expression is out of range and the call panics. The count
  parser accepts a sign, so a negative length is reachable: \<^verbatim>\<open>-1:"ab";\<close> panics,
  whatever the raw-decode helper returns.
\<close>

theorem consumeStringRealPart_out_of_range:
  \<open>(consumeIntPart data offset = Returns (len, newOffset, None) \<longrightarrow>
      (len < 0 \<or> int (length (DecodePHPString ext data)) < newOffset + 1 + len) \<longrightarrow>
      consumeStringRealPart ext data offset = Panics SliceBoundsOutOfRange) \<and>
    consumeIntPart ''-1:"ab";'' 0 = Returns (- 1, 3, None) \<and>
    consumeStringRealPart ext ''-1:"ab";'' 0 = Panics SliceBoundsOutOfRange\<close>
proof -
  have neg: \<open>consumeIntPart ''-1:"ab";'' 0 = Returns (- 1, 3, None)\<close>
    by (simp add: consumeIntPart_def consumeStringUntilByte_def findByte_def slice_def
        Atoi_def isDigit_def)
  have gen: "consumeStringRealPart ext data offset = Panics SliceBoundsOutOfRange"
    if "consumeIntPart data offset = Returns (len, newOffset, None)"
      and "len < 0 \<or> int (length (DecodePHPString ext data)) < newOffset + 1 + len"
    for data offset len newOffset
    using that by (auto simp: consumeStringRealPart_def Let_def)
  from gen[OF neg] neg gen show ?thesis by simp
qed

theorem consumeStringRealPart_out_of_range_witness:
  \<open>consumeIntPart ''5:"ab";'' 0 = Returns (5, 2, None) \<and>
    int (length (DecodePHPString plainText ''5:"ab";'')) < 2 + 1 + 5 \<and>
    consumeStringRealPart plainText ''5:"ab";'' 0 = Panics SliceBoundsOutOfRange\<close>
proof -
  have c: \<open>consumeIntPart ''5:"ab";'' 0 = Returns (5, 2, None)\<close>
    by (simp add: consumeIntPart_def consumeStringUntilByte_def findByte_def slice_def
        Atoi_def isDigit_def)
  have l: \<open>int (length (DecodePHPString plainText ''5:"ab";'')) < 2 + 1 + 5\<close>
    by (simp add: plainText_def)
  from consumeStringRealPart_out_of_range[of \<open>''5:"ab";''\<close> 0 5 2 plainText] c l
  show ?thesis by simp
qed

section \<open>Results of the object consumer\<close>

lemma consume_result_shape:
  fixes ext :: "('f::zero) externals"
  shows "consumeObject ext data offset v = Returns (r, e, v') \<Longrightarrow>
      (e = None \<and> offset < r) \<or> (e \<noteq> None \<and> r = - 1)"
    and "consumePairs ext data len i offset v = Returns (r, e, v') \<Longrightarrow>
      (e = None \<and> offset < r) \<or> (e \<noteq> None \<and> r = - 1)"
proof (induction ext data offset v and ext data len i offset v arbitrary: r e v' and r e v'
    rule: consume_induct)
  case (Object ext data offset v)
  show ?case
  proof (cases rule: consumeObject_cases[of data offset ext v])
    case NotObject
    with Object.prems show ?thesis by auto
  next
    case (NamePanic p)
    with Object.prems show ?thesis by simp
  next
    case (NameError cn o1 e)
    with Object.prems show ?thesis by auto
  next
    case (CountPanic cn o1 p)
    with Object.prems show ?thesis by simp
  next
    case (CountError cn o1 n o2 e)
    with Object.prems show ?thesis by auto
  next
    case (Pairs cn o1 n o2)
    from Object.IH[OF Pairs(1-3)] Object.prems Pairs(4)
    have "(e = None \<and> o2 + 1 < r) \<or> (e \<noteq> None \<and> r = - 1)" by simp
    with consumeStringRealPart_ok[OF Pairs(2)] consumeIntPart_ok[OF Pairs(3)]
    show ?thesis by auto
  qed
next
  case (Pairs ext data len i offset v)
  show ?case
  proof (cases rule: consumePairs_cases[of i len ext data offset v])
    case Done
    with Pairs.prems show ?thesis by auto
  next
    case (NestedOk key o1 field subV o2 subV')
    from Pairs.IH(1)[OF NestedOk(1-8)] have "o1 < o2" by simp
    moreover from Pairs.IH(2)[OF NestedOk(1-8)] Pairs.prems NestedOk(9)
    have "(e = None \<and> o2 < r) \<or> (e \<noteq> None \<and> r = - 1)" by simp
    ultimately show ?thesis using consumeString_ok[OF NestedOk(2)] by auto
  next
    case (ScalarOk key o1 field val o2 v2)
    from Pairs.IH(3)[OF ScalarOk(1-8)] Pairs.prems ScalarOk(9)
    have "(e = None \<and> o2 < r) \<or> (e \<noteq> None \<and> r = - 1)" by simp
    with consumeString_ok[OF ScalarOk(2)] consumeNext_ok[OF ScalarOk(7)]
    show ?thesis by auto
  qed (use Pairs.prems in auto)
qed

section \<open>Errors and the sentinel offset\<close>

lemma consumeIntPart_error:
  "consumeIntPart data offset = Returns (v, r, Some e) \<Longrightarrow> r = - 1"
  by (auto simp: consumeIntPart_def split: outcome.splits sum.splits prod.splits)

lemma consumeStringRealPart_error:
  "consumeStringRealPart ext data offset = Returns (v, r, Some e) \<Longrightarrow> r = - 1"
  by (auto simp: consumeStringRealPart_def Let_def
      split: outcome.splits option.splits prod.splits if_splits)

lemma consumeString_error:
  "consumeString ext data offset = Returns (v, r, Some e) \<Longrightarrow> r = - 1"
  by (auto simp: consumeString_def split: if_splits dest: consumeStringRealPart_error)

lemma consumeInt_error:
  "consumeInt data offset = Returns (v, r, Some e) \<Longrightarrow> r = - 1"
  by (auto simp: consumeInt_def split: outcome.splits sum.splits prod.splits if_splits)

lemma consumeFloat_error:
  "consumeFloat ext data offset = Returns (v, r, Some e) \<Longrightarrow> r = - 1"
  by (auto simp: consumeFloat_def split: outcome.splits sum.splits prod.splits if_splits)

lemma consumeNil_error:
  "consumeNil data offset = Returns (v, r, Some e) \<Longrightarrow> r = - 1"
  by (auto simp: consumeNil_def split: if_splits)

lemma consumeBool_error:
  "consumeBool data offset = Returns (v, r, Some e) \<Longrightarrow> r = - 1"
  by (auto simp: consumeBool_def split: if_splits)

lemma consumeNext_error:
  "consumeNext ext data offset = Returns (v, r, Some e) \<Longrightarrow> r = - 1"
  by (auto simp: consumeNext_def boxed_def split: outcome.splits prod.splits if_splits
      dest: consumeBool_error consumeFloat_error consumeInt_error consumeString_error
        consumeNil_error)

text \<open>
  For every buffer and offset, whenever \<^verbatim>\<open>consumeInt\<close>, \<^verbatim>\<open>consumeFloat\<close>,
  \<^verbatim>\<open>consumeString\<close>, \<^verbatim>\<open>consumeNil\<close>, \<^verbatim>\<open>consumeBool\<close>, \<^verbatim>\<open>consumeObject\<close>,
  \<^verbatim>\<open>consumeNext\<close> or \<^verbatim>\<open>consumeIntPart\<close> returns an error, the offset it returns
  with the error is \<open>-1\<close>.
\<close>

lemma error_offset_is_sentinel:
  fixes ext :: "('f::zero) externals"
  shows "(\<forall>v r e. consumeInt data offset = Returns (v, r, Some e) \<longrightarrow> r = - 1) \<and>
    (\<forall>v r e. consumeFloat ext data offset = Returns (v, r, Some e) \<longrightarrow> r = - 1) \<and>
    (\<forall>v r e. consumeString ext data offset = Returns (v, r, Some e) \<longrightarrow> r = - 1) \<and>
    (\<forall>v r e. consumeNil data offset = Returns (v :: 'f value, r, Some e) \<longrightarrow> r = - 1) \<and>
    (\<forall>v r e. consumeBool data offset = Returns (v, r, Some e) \<longrightarrow> r = - 1) \<and>
    (\<forall>dest r e dest'.
        consumeObject ext data offset dest = Returns (r, Some e, dest') \<longrightarrow> r = - 1) \<and>
    (\<forall>v r e. consumeNext ext data offset = Returns (v, r, Some e) \<longrightarrow> r = - 1) \<and>
    (\<forall>v r e. consumeIntPart data offset = Returns (v, r, Some e) \<longrightarrow> r = - 1)"
proof -
  have obj: "r = - 1" if "consumeObject ext data offset dest = Returns (r, Some e, dest')"
    for dest r e dest'
    using consume_result_shape(1)[OF that] by simp
  show ?thesis
    using consumeInt_error[of data offset] consumeFloat_error[of ext data offset]
      consumeString_error[of ext data offset] consumeNil_error[of data offset]
      consumeBool_error[of data offset] consumeNext_error[of ext data offset]
      consumeIntPart_error[of data offset] obj
    by blast
qed

text \<open>
  The consumers of a terminated number and of \<^verbatim>\<open>N;\<close> return on every buffer and
  offset: they read no byte that they have not checked to be there.
\<close>

lemma consumeStringUntilByte_returns:
  "0 \<le> offset \<Longrightarrow> \<exists>r. consumeStringUntilByte data b offset = Returns r"
  using findByte_range[of data b offset]
  by (auto simp: consumeStringUntilByte_def Let_def)

lemma consumeInt_returns: "\<exists>r. consumeInt data offset = Returns r"
proof (cases "checkType data CHR ''i'' offset")
  case False
  then show ?thesis by (simp add: consumeInt_def)
next
  case True
  then have "0 \<le> offset + 2" by (simp add: checkType_def)
  from consumeStringUntilByte_returns[OF this, of data "CHR '';''"] True show ?thesis
    by (auto simp: consumeInt_def split: sum.splits prod.splits)
qed

lemma consumeFloat_returns:
  fixes ext :: "('f::zero) externals"
  shows "\<exists>r. consumeFloat ext data offset = Returns r"
proof (cases "checkType data CHR ''d'' offset")
  case False
  then show ?thesis by (simp add: consumeFloat_def)
next
  case True
  then have "0 \<le> offset + 2" by (simp add: checkType_def)
  from consumeStringUntilByte_returns[OF this, of data "CHR '';''"] True show ?thesis
    by (auto simp: consumeFloat_def split: sum.splits prod.splits)
qed

lemma consumeNil_returns:
  "\<exists>r. (consumeNil data offset :: ('f value \<times> int \<times> error option) outcome) = Returns r"
  by (simp add: consumeNil_def)

text \<open>
  C7: a failure is not always signalled through the returned error. On \<^verbatim>\<open>b:\<close> the tag
  is there and the payload byte is not: \<^verbatim>\<open>consumeBool\<close> checks the tag and then reads
  \<^verbatim>\<open>data[offset+2]\<close> without a look at the length of the buffer, and panics, where
  \<^verbatim>\<open>consumeInt\<close> and \<^verbatim>\<open>consumeFloat\<close> on their tag without a payload return an error
  with the offset \<open>-1\<close>, as they and \<^verbatim>\<open>consumeNil\<close> do on every input instead of
  panicking. Likewise \<^verbatim>\<open>consumeObject\<close> reads the tag of a value, \<^verbatim>\<open>data[offset]\<close>,
  before \<^verbatim>\<open>consumeNext\<close> has compared the offset with the length, and panics on a
  buffer that ends after a key, where \<^verbatim>\<open>consumeNext\<close> at that offset returns the
  error \<^verbatim>\<open>corrupt\<close>.
\<close>

theorem consumeBool_reads_past_the_end:
  fixes ext :: "('f::zero) externals"
  shows \<open>consumeBool ''b:'' 0 = Panics IndexOutOfRange \<and>
    consumeInt ''i:'' 0 = Returns (0, - 1, Some (NumError ''Atoi'' [] ErrSyntax)) \<and>
    consumeFloat plainText ''d:'' 0 = Returns (0, - 1, Some (NumError ''ParseFloat'' [] ErrSyntax)) \<and>
    consumeObject plainText ''O:1:"A":1:{s:1:"a";'' 0 dummyObject = Panics IndexOutOfRange \<and>
    consumeNext plainText ''O:1:"A":1:{s:1:"a";'' 19 =
      Returns (VNil, - 1, Some (ErrorString ''corrupt'')) \<and>
    (\<exists>r. consumeInt data offset = Returns r) \<and>
    (\<exists>r. consumeFloat ext data offset = Returns r) \<and>
    (\<exists>r. (consumeNil data offset :: ('f value \<times> int \<times> error option) outcome) = Returns r)\<close>
proof -
  have a: "consumeBool ''b:'' 0 = Panics IndexOutOfRange"
    by (simp add: consumeBool_def checkType_def)
  have b: "consumeInt ''i:'' 0 = Returns (0, - 1, Some (NumError ''Atoi'' [] ErrSyntax))"
    by (simp add: consumeInt_def checkType_def consumeStringUntilByte_def findByte_def Atoi_def)
  have c: "consumeFloat plainText ''d:'' 0 =
      Returns (0, - 1, Some (NumError ''ParseFloat'' [] ErrSyntax))"
    by (simp add: consumeFloat_def checkType_def consumeStringUntilByte_def findByte_def
        strconvParseFloat_def)
  have d: \<open>consumeObject plainText ''O:1:"A":1:{s:1:"a";'' 0 dummyObject = Panics IndexOutOfRange\<close>
    by (simp add: consumeObject.simps consumePairs.simps consumeString_def
        consumeStringRealPart_def consumeIntPart_def checkType_def consumeStringUntilByte_def
        findByte_def slice_def Atoi_def isDigit_def FieldByName_def dummyObject_def
        plainText_def)
  have e: \<open>consumeNext plainText ''O:1:"A":1:{s:1:"a";'' 19 =
      Returns (VNil, - 1, Some (ErrorString ''corrupt''))\<close>
    by (simp add: consumeNext_def)
  from a b c d e consumeInt_returns[of data offset] consumeFloat_returns[of ext data offset]
    consumeNil_returns[of data offset, where 'f = 'f]
  show ?thesis by (intro conjI)
qed

section \<open>Offsets move forward\<close>

text \<open>
  C8: for every buffer and starting offset, whenever \<^verbatim>\<open>consumeNil\<close>, \<^verbatim>\<open>consumeBool\<close>,
  \<^verbatim>\<open>consumeInt\<close>, \<^verbatim>\<open>consumeFloat\<close>, \<^verbatim>\<open>consumeString\<close>, \<^verbatim>\<open>consumeObject\<close> or
  \<^verbatim>\<open>consumeNext\<close> returns without an error, the offset it returns is strictly greater
  than the starting offset.
\<close>

theorem offsets_move_forward:
  fixes ext :: "('f::zero) externals"
  shows "(\<forall>v r. consumeNil data offset = Returns (v :: 'f value, r, None) \<longrightarrow> offset < r) \<and>
    (\<forall>v r. consumeBool data offset = Returns (v, r, None) \<longrightarrow> offset < r) \<and>
    (\<forall>v r. consumeInt data offset = Returns (v, r, None) \<longrightarrow> offset < r) \<and>
    (\<forall>v r. consumeFloat ext data offset = Returns (v, r, None) \<longrightarrow> offset < r) \<and>
    (\<forall>v r. consumeString ext data offset = Returns (v, r, None) \<longrightarrow> offset < r) \<and>
    (\<forall>dest r dest'.
        consumeObject ext data offset dest = Returns (r, None, dest') \<longrightarrow> offset < r) \<and>
    (\<forall>v r. consumeNext ext data offset = Returns (v, r, None) \<longrightarrow> offset < r)"
proof -
  have nil: "offset < r" if "consumeNil data offset = Returns (v :: 'f value, r, None)" for v r
    using that by (auto simp: consumeNil_def split: if_splits)
  have bool: "offset < r" if "consumeBool data offset = Returns (v, r, None)" for v r
    using that by (auto simp: consumeBool_def split: if_splits)
  have int: "offset < r" if "consumeInt data offset = Returns (v, r, None)" for v r
    using consumeInt_ok[OF that] by simp
  have float: "offset < r" if "consumeFloat ext data offset = Returns (v, r, None)" for v r
    using consumeFloat_ok[OF that] by simp
  have str: "offset < r" if "consumeString ext data offset = Returns (v, r, None)" for v r
    using consumeString_ok[OF that] by simp
  have obj: "offset < r" if "consumeObject ext data offset dest = Returns (r, None, dest')"
    for dest r dest'
    using consume_result_shape(1)[OF that] by simp
  have nxt: "offset < r" if "consumeNext ext data offset = Returns (v, r, None)" for v r
    using consumeNext_ok[OF that] by simp
  from nil bool int float str obj nxt show ?thesis by blast
qed

theorem offsets_move_forward_witness:
  \<open>(\<exists>r. consumeInt ''N;i:42;'' 2 = Returns (42, r, None) \<and> 2 < r) \<and>
   (\<exists>r. consumeObject plainText ''O:1:"A":0:{}'' 0 dummyObject = Returns (r, None, dummyObject) \<and>
     0 < r)\<close>
proof -
  obtain r where a: "consumeInt ''N;i:42;'' 2 = Returns (42, r, None)"
    by (simp add: consumeInt_def checkType_def consumeStringUntilByte_def findByte_def
        slice_def Atoi_def isDigit_def)
  obtain q where b: \<open>consumeObject plainText ''O:1:"A":0:{}'' 0 dummyObject =
      Returns (q, None, dummyObject)\<close>
    by (simp add: consumeObject.simps consumePairs.simps consumeStringRealPart_def
        consumeIntPart_def checkType_def consumeStringUntilByte_def findByte_def slice_def
        Atoi_def isDigit_def plainText_def)
  note int = offsets_move_forward[of \<open>''N;i:42;''\<close> 2 plainText,
      THEN conjunct2, THEN conjunct2, THEN conjunct1]
  note obj = offsets_move_forward[of \<open>''O:1:"A":0:{}''\<close> 0 plainText,
      THEN conjunct2, THEN conjunct2, THEN conjunct2, THEN conjunct2, THEN conjunct2,
      THEN conjunct1]
  from int[rule_format, OF a] have "2 < r" .
  moreover from obj[rule_format, OF b] have "0 < q" .
  ultimately show ?thesis using a b by blast
qed

section \<open>Truncated input\<close>

lemma scan_absent: "b \<notin> set xs \<Longrightarrow> scan xs b i = - 1"
  by (induction xs b i rule: scan.induct) auto

lemma consumeStringUntilByte_absent:
  "b \<notin> set (drop (nat offset) data) \<Longrightarrow> consumeStringUntilByte data b offset = Returns ([], - 1)"
  by (simp add: consumeStringUntilByte_def findByte_def scan_absent)

text \<open>
  C3, as amended: on a buffer in which no \<^verbatim>\<open>;\<close> follows the tag, \<^verbatim>\<open>consumeInt\<close> and
  \<^verbatim>\<open>consumeFloat\<close> fail with a parse error and the offset \<open>-1\<close>, and whenever they
  succeed the offset they return is at most the length of the buffer. The other four
  consumers do not look for their terminator, and the offset they return can lie beyond
  the buffer: with its tag at the offset, \<^verbatim>\<open>consumeNil\<close> returns the offset plus 2;
  \<^verbatim>\<open>consumeBool\<close> returns the offset plus 4 as soon as the payload byte is inside the
  buffer; \<^verbatim>\<open>consumeString\<close> returns the offset two past its payload as soon as the
  declared length is read and the payload lies inside the decoded text;
  \<^verbatim>\<open>consumeObject\<close>, once its pairs are consumed, returns one more than the cursor,
  whatever is there, so two more than the position of the byte after the element count
  when that count is not positive.
\<close>

theorem truncated_input_outcomes:
  fixes ext :: "('f::zero) externals"
  shows "(checkType data CHR ''i'' offset \<and> CHR '';'' \<notin> set (drop (nat (offset + 2)) data) \<longrightarrow>
       consumeInt data offset = Returns (0, - 1, Some (NumError ''Atoi'' [] ErrSyntax))) \<and>
    (checkType data CHR ''d'' offset \<and> CHR '';'' \<notin> set (drop (nat (offset + 2)) data) \<longrightarrow>
       consumeFloat ext data offset =
         Returns (0, - 1, Some (NumError ''ParseFloat'' [] ErrSyntax))) \<and>
    (\<forall>v r. consumeInt data offset = Returns (v, r, None) \<longrightarrow> r \<le> int (length data)) \<and>
    (\<forall>v r. consumeFloat ext data offset = Returns (v, r, None) \<longrightarrow> r \<le> int (length data)) \<and>
    (checkType data CHR ''N'' offset \<longrightarrow>
       consumeNil data offset = Returns (VNil :: 'f value, offset + 2, None)) \<and>
    (checkType data CHR ''b'' offset \<and> offset + 2 < int (length data) \<longrightarrow>
       consumeBool data offset =
         Returns (data ! nat (offset + 2) = CHR ''1'', offset + 4, None)) \<and>
    (\<forall>n o1. checkType data CHR ''s'' offset \<and>
       consumeIntPart data (offset + 2) = Returns (n, o1, None) \<and> 0 \<le> n \<and>
       o1 + 1 + n \<le> int (length (DecodePHPString ext data)) \<longrightarrow>
       consumeString ext data offset =
         Returns (slice (DecodePHPString ext data) (o1 + 1) (o1 + 1 + n), o1 + 1 + n + 2, None)) \<and>
    (\<forall>len i v. \<not> i < len \<longrightarrow>
       consumePairs ext data len i offset v = Returns (offset + 1, None, v)) \<and>
    (\<forall>className o1 n o2 v. checkType data CHR ''O'' offset \<and>
       consumeStringRealPart ext data (offset + 2) = Returns (className, o1, None) \<and>
       consumeIntPart data o1 = Returns (n, o2, None) \<and> n \<le> 0 \<longrightarrow>
       consumeObject ext data offset v = Returns (o2 + 2, None, v))"
proof -
  have i: "consumeInt data offset = Returns (0, - 1, Some (NumError ''Atoi'' [] ErrSyntax))"
    if "checkType data CHR ''i'' offset" "CHR '';'' \<notin> set (drop (nat (offset + 2)) data)"
    using that by (simp add: consumeInt_def consumeStringUntilByte_absent Atoi_empty)
  have d: "consumeFloat ext data offset =
      Returns (0, - 1, Some (NumError ''ParseFloat'' [] ErrSyntax))"
    if "checkType data CHR ''d'' offset" "CHR '';'' \<notin> set (drop (nat (offset + 2)) data)"
    using that
    by (simp add: consumeFloat_def consumeStringUntilByte_absent strconvParseFloat_def)
  have ib: "r \<le> int (length data)" if "consumeInt data offset = Returns (v, r, None)" for v r
    using consumeInt_ok[OF that] by simp
  have db: "r \<le> int (length data)" if "consumeFloat ext data offset = Returns (v, r, None)"
    for v r
    using consumeFloat_ok[OF that] by simp
  have n: "consumeNil data offset = Returns (VNil :: 'f value, offset + 2, None)"
    if "checkType data CHR ''N'' offset"
    using that by (simp add: consumeNil_def)
  have b: "consumeBool data offset =
      Returns (data ! nat (offset + 2) = CHR ''1'', offset + 4, None)"
    if "checkType data CHR ''b'' offset" "offset + 2 < int (length data)"
    using that by (simp add: consumeBool_def checkType_def)
  have s: "consumeString ext data offset =
      Returns (slice (DecodePHPString ext data) (o1 + 1) (o1 + 1 + n), o1 + 1 + n + 2, None)"
    if "checkType data CHR ''s'' offset"
      "consumeIntPart data (offset + 2) = Returns (n, o1, None)" "0 \<le> n"
      "o1 + 1 + n \<le> int (length (DecodePHPString ext data))" for n o1
    using that consumeIntPart_ok[OF that(2)]
    by (simp add: consumeString_def consumeStringRealPart_def Let_def checkType_def)
  have p: "consumePairs ext data len i offset v = Returns (offset + 1, None, v)"
    if "\<not> i < len" for len i v
    using that by (simp add: consumePairs.simps[of ext data len i offset v])
  have ob: "consumeObject ext data offset v = Returns (o2 + 2, None, v)"
    if "checkType data CHR ''O'' offset"
      "consumeStringRealPart ext data (offset + 2) = Returns (className, o1, None)"
      "consumeIntPart data o1 = Returns (n, o2, None)" "n \<le> 0" for className o1 n o2 v
    using that
    by (simp add: consumeObject.simps[of ext data offset v]
        consumePairs.simps[of ext data n 0 "o2 + 1" v])
  from i d ib db n b s p ob show ?thesis by blast
qed

theorem truncated_input_outcomes_witness:
  \<open>consumeInt ''i:42'' 0 = Returns (0, - 1, Some (NumError ''Atoi'' [] ErrSyntax)) \<and>
   consumeFloat plainText ''d:3.5'' 0 =
     Returns (0, - 1, Some (NumError ''ParseFloat'' [] ErrSyntax)) \<and>
   consumeNil ''N'' 0 = Returns (VNil :: real value, 2, None) \<and>
   consumeBool ''b:0'' 0 = Returns (False, 4, None) \<and>
   consumeString plainText ''s:3:"abc'' 0 = Returns (''abc'', 10, None) \<and>
   consumePairs plainText ''O:1:"B":0:'' 0 0 11 (SStruct []) = Returns (12, None, SStruct []) \<and>
   consumeObject plainText ''O:1:"B":0:'' 0 (SStruct []) = Returns (12, None, SStruct [])\<close>
proof -
  have a: "checkType ''i:42'' CHR ''i'' 0 \<and> CHR '';'' \<notin> set (drop (nat (0 + 2)) ''i:42'')"
    by (simp add: checkType_def)
  have b: "checkType ''d:3.5'' CHR ''d'' 0 \<and> CHR '';'' \<notin> set (drop (nat (0 + 2)) ''d:3.5'')"
    by (simp add: checkType_def)
  have c: "checkType ''N'' CHR ''N'' 0" by (simp add: checkType_def)
  have d: "checkType ''b:0'' CHR ''b'' 0 \<and> 0 + 2 < int (length ''b:0'')"
    by (simp add: checkType_def)
  have e: \<open>checkType ''s:3:"abc'' CHR ''s'' 0 \<and>
      consumeIntPart ''s:3:"abc'' (0 + 2) = Returns (3, 4, None) \<and> (0::int) \<le> 3 \<and>
      4 + 1 + 3 \<le> int (length (DecodePHPString plainText ''s:3:"abc''))\<close>
    by (simp add: checkType_def consumeIntPart_def consumeStringUntilByte_def findByte_def
        slice_def Atoi_def isDigit_def plainText_def)
  have f: "\<not> (0::int) < 0" by simp
  have g: \<open>checkType ''O:1:"B":0:'' CHR ''O'' 0 \<and>
      consumeStringRealPart plainText ''O:1:"B":0:'' (0 + 2) = Returns (''B'', 8, None) \<and>
      consumeIntPart ''O:1:"B":0:'' 8 = Returns (0, 10, None) \<and> (0::int) \<le> 0\<close>
    by (simp add: checkType_def consumeStringRealPart_def consumeIntPart_def
        consumeStringUntilByte_def findByte_def slice_def Atoi_def isDigit_def plainText_def)
  note t1 = truncated_input_outcomes[of "''i:42''" 0 plainText, THEN conjunct1, THEN mp, OF a]
  note t2 = truncated_input_outcomes[of "''d:3.5''" 0 plainText, THEN conjunct2,
      THEN conjunct1, THEN mp, OF b]
  note t3 = truncated_input_outcomes[of "''N''" 0 plainText, THEN conjunct2, THEN conjunct2,
      THEN conjunct2, THEN conjunct2, THEN conjunct1, THEN mp, OF c]
  note t4 = truncated_input_outcomes[of "''b:0''" 0 plainText, THEN conjunct2, THEN conjunct2,
      THEN conjunct2, THEN conjunct2, THEN conjunct2, THEN conjunct1, THEN mp, OF d]
  note t5 = truncated_input_outcomes[of \<open>''s:3:"abc''\<close> 0 plainText, THEN conjunct2,
      THEN conjunct2, THEN conjunct2, THEN conjunct2, THEN conjunct2, THEN conjunct2,
      THEN conjunct1, THEN spec, THEN spec, THEN mp, OF e]
  note t6 = truncated_input_outcomes[of \<open>''O:1:"B":0:''\<close> 11 plainText, THEN conjunct2,
      THEN conjunct2, THEN conjunct2, THEN conjunct2, THEN conjunct2, THEN conjunct2,
      THEN conjunct2, THEN conjunct1, THEN spec, THEN spec, THEN spec, THEN mp, OF f,
      of "SStruct []"]
  note t7 = truncated_input_outcomes[of \<open>''O:1:"B":0:''\<close> 0 plainText, THEN conjunct2,
      THEN conjunct2, THEN conjunct2, THEN conjunct2, THEN conjunct2, THEN conjunct2,
      THEN conjunct2, THEN conjunct2, THEN spec, THEN spec, THEN spec, THEN spec, THEN spec,
      THEN mp, OF g, of "SStruct []"]
  from t1 t2 t3 t4 t5 t6 t7 show ?thesis
    by (simp add: slice_def plainText_def)
qed

text \<open>
  C3 as stated fails for each of the four consumers that do not look for their
  terminator. On \<^verbatim>\<open>b:1\<close> and on \<^verbatim>\<open>N\<close>, which lack the \<^verbatim>\<open>;\<close>, on \<^verbatim>\<open>s:2:"ab\<close>, which
  lacks the closing quote and the \<^verbatim>\<open>;\<close>, and on an object cut after its element count,
  the consumer returns success, with an offset past the end of the buffer.
\<close>

theorem truncated_input_counterexample:
  \<open>consumeBool ''b:1'' 0 = Returns (True, 4, None) \<and> int (length ''b:1'') < 4 \<and>
   consumeNil ''N'' 0 = Returns (VNil :: real value, 2, None) \<and> int (length ''N'') < 2 \<and>
   consumeString plainText ''s:2:"ab'' 0 = Returns (''ab'', 9, None) \<and>
   int (length ''s:2:"ab'') < 9 \<and>
   consumeObject plainText ''O:1:"A":0:'' 0 dummyObject = Returns (12, None, dummyObject) \<and>
   int (length ''O:1:"A":0:'') < 12\<close>
  by (simp add: consumeBool_def consumeNil_def checkType_def consumeString_def
      consumeStringRealPart_def consumeIntPart_def consumeStringUntilByte_def findByte_def
      slice_def Atoi_def isDigit_def consumeObject.simps consumePairs.simps plainText_def)

section \<open>Assignment to a field of another kind\<close>

lemma setField_mismatch:
  "\<not> assignableOrCoercible (snd f) val \<Longrightarrow> setField ext f val = Panics ReflectPanic"
  by (cases f; cases "fst f"; cases "snd f"; cases val) (simp_all add: setField_def)

text \<open>
  C4, as amended: in \<^verbatim>\<open>consumeObject\<close>'s loop, when the decoded scalar is neither
  assignable nor numerically coercible to the kind of the matched field (a text decoded
  into an integer field, say), no \<^verbatim>\<open>FieldTypeMismatch\<close> error is returned:
  \<^verbatim>\<open>setField\<close> panics in \<^verbatim>\<open>reflect\<close> and so does the decode, which does not succeed
  and returns no error value.
\<close>

theorem kind_mismatch_panics:
  fixes ext :: "('f::zero) externals"
  assumes "i < len"
    and "consumeString ext data offset = Returns (key, offset1, None)"
    and "FieldByName v (upperCaseFirstLetter key) = Returns (Some f)"
    and "data ! nat offset1 \<noteq> CHR ''O''"
    and "consumeNext ext data offset1 = Returns (val, offset2, None)"
    and "\<not> assignableOrCoercible (snd f) val"
  shows "setField ext f val = Panics ReflectPanic \<and>
    consumePairs ext data len i offset v = Panics ReflectPanic"
proof -
  from consumeNext_ok[OF assms(5)]
  have rng: "\<not> (offset1 < 0 \<or> int (length data) \<le> offset1)" by simp
  from setField_mismatch[OF assms(6)] have p: "setField ext f val = Panics ReflectPanic" .
  with assms(1-5) rng show ?thesis
    by (simp add: consumePairs.simps[of ext data len i offset v] assignField_def)
qed

theorem kind_mismatch_panics_witness:
  \<open>consumeString plainText ''O:1:"A":1:{s:3:"Age";s:1:"x";}'' 11 = Returns (''Age'', 21, None) \<and>
   FieldByName (SStruct [(''Age'', True, SInt KInt 0)]) (upperCaseFirstLetter ''Age'') =
     Returns (Some (True, SInt KInt 0 :: real slot)) \<and>
   consumeNext plainText ''O:1:"A":1:{s:3:"Age";s:1:"x";}'' 21 =
     Returns (VString ''x'', 29, None) \<and>
   \<not> assignableOrCoercible (SInt KInt 0) (VString ''x'' :: real value) \<and>
   consumePairs plainText ''O:1:"A":1:{s:3:"Age";s:1:"x";}'' 1 0 11
     (SStruct [(''Age'', True, SInt KInt 0)]) = Panics ReflectPanic\<close>
proof -
  have k: \<open>consumeString plainText ''O:1:"A":1:{s:3:"Age";s:1:"x";}'' 11 =
      Returns (''Age'', 21, None)\<close>
    by (simp add: consumeString_def consumeStringRealPart_def consumeIntPart_def checkType_def
        consumeStringUntilByte_def findByte_def slice_def Atoi_def isDigit_def plainText_def)
  have f: "FieldByName (SStruct [(''Age'', True, SInt KInt 0)]) (upperCaseFirstLetter ''Age'') =
      Returns (Some (True, SInt KInt (0::int) :: real slot))"
    by (simp add: FieldByName_def upperCaseFirstLetter_def toUpper_def)
  have t: \<open>''O:1:"A":1:{s:3:"Age";s:1:"x";}'' ! nat 21 \<noteq> CHR ''O''\<close>
    by simp
  have n: \<open>consumeNext plainText ''O:1:"A":1:{s:3:"Age";s:1:"x";}'' 21 =
      Returns (VString ''x'', 29, None)\<close>
    by (simp add: consumeNext_def boxed_def consumeString_def consumeStringRealPart_def
        consumeIntPart_def checkType_def consumeStringUntilByte_def findByte_def slice_def
        Atoi_def isDigit_def plainText_def)
  have m: "\<not> assignableOrCoercible (snd (True, SInt KInt 0)) (VString ''x'' :: real value)"
    by simp
  from kind_mismatch_panics[OF _ k f t n m, of 0 1] k f n m show ?thesis by simp
qed

text \<open>
  C4 as stated fails on a text decoded into an integer field: \<^verbatim>\<open>consumeObject\<close>
  returns no error value, it panics.
\<close>

theorem kind_mismatch_counterexample:
  \<open>consumeObject plainText ''O:1:"A":1:{s:3:"Age";s:1:"x";}'' 0
     (SStruct [(''Age'', True, SInt KInt 0)]) = Panics ReflectPanic\<close>
  by (simp add: consumeObject.simps consumePairs.simps consumeString_def
      consumeStringRealPart_def consumeIntPart_def checkType_def consumeStringUntilByte_def
      findByte_def slice_def Atoi_def isDigit_def FieldByName_def upperCaseFirstLetter_def
      toUpper_def consumeNext_def boxed_def assignField_def setField_def plainText_def)

section \<open>An object decoded into a record\<close>

text \<open>
  C1: decoding \<^verbatim>\<open>O:6:"Person":2:{s:4:"Name";s:3:"Bob";s:3:"Age";i:30;}\<close>, a buffer the
  raw-decode helper leaves as it is, with \<^verbatim>\<open>consumeObject\<close> at offset 0 into a record
  with a text field \<^verbatim>\<open>Name\<close> and an integer field \<^verbatim>\<open>Age\<close> (of any signed integer
  kind, whatever the two fields held) sets \<^verbatim>\<open>Name\<close> to \<^verbatim>\<open>Bob\<close> and \<^verbatim>\<open>Age\<close> to 30,
  returns no error, and returns the length of the buffer as the offset.
\<close>

theorem person_decodes:
  fixes ext :: "('f::zero) externals"
  assumes \<open>DecodePHPString ext ''O:6:"Person":2:{s:4:"Name";s:3:"Bob";s:3:"Age";i:30;}'' =
    ''O:6:"Person":2:{s:4:"Name";s:3:"Bob";s:3:"Age";i:30;}''\<close>
  shows \<open>consumeObject ext ''O:6:"Person":2:{s:4:"Name";s:3:"Bob";s:3:"Age";i:30;}'' 0
      (SStruct [(''Name'', True, SString name0), (''Age'', True, SInt k age0)]) =
    Returns (int (length ''O:6:"Person":2:{s:4:"Name";s:3:"Bob";s:3:"Age";i:30;}''), None,
      SStruct [(''Name'', True, SString ''Bob''), (''Age'', True, SInt k 30)])\<close>
proof -
  have w: "signed_take_bit (int_bits k - 1) (30::int) = 30"
    by (cases k) simp_all
  show ?thesis
    using assms w
    by (simp add: consumeObject.simps consumePairs.simps consumeString_def
        consumeStringRealPart_def consumeIntPart_def checkType_def consumeStringUntilByte_def
        findByte_def slice_def Atoi_def isDigit_def FieldByName_def upperCaseFirstLetter_def
        toUpper_def consumeNext_def boxed_def consumeInt_def assignField_def setField_def)
qed

theorem person_decodes_witness:
  \<open>DecodePHPString plainText ''O:6:"Person":2:{s:4:"Name";s:3:"Bob";s:3:"Age";i:30;}'' =
     ''O:6:"Person":2:{s:4:"Name";s:3:"Bob";s:3:"Age";i:30;}'' \<and>
   consumeObject plainText ''O:6:"Person":2:{s:4:"Name";s:3:"Bob";s:3:"Age";i:30;}'' 0
      (SStruct [(''Name'', True, SString []), (''Age'', True, SInt KInt 0)]) =
    Returns (53, None, SStruct [(''Name'', True, SString ''Bob''), (''Age'', True, SInt KInt 30)])\<close>
proof -
  have d: \<open>DecodePHPString plainText ''O:6:"Person":2:{s:4:"Name";s:3:"Bob";s:3:"Age";i:30;}'' =
     ''O:6:"Person":2:{s:4:"Name";s:3:"Bob";s:3:"Age";i:30;}''\<close>
    by (simp add: plainText_def)
  from person_decodes[OF d, of "[]" KInt 0] d show ?thesis by simp
qed


section \<open>Keys without a field\<close>

lemma dummy_fieldless: "FieldByName dummyObject name = Returns None"
  by (simp add: FieldByName_def dummyObject_def)

lemma consume_into_dummy:
  fixes ext :: "('f::zero) externals"
  shows "consumeObject ext data offset v = Returns (r, None, v') \<Longrightarrow>
      consumeObject ext data offset dummyObject = Returns (r, None, dummyObject)"
    and "consumePairs ext data len i offset v = Returns (r, None, v') \<Longrightarrow>
      consumePairs ext data len i offset dummyObject = Returns (r, None, dummyObject)"
proof (induction ext data offset v and ext data len i offset v arbitrary: r v' and r v'
    rule: consume_induct)
  case (Object ext data offset v)
  show ?case
  proof (cases rule: consumeObject_cases[of data offset ext v])
    case (Pairs cn o1 n o2)
    from Object.IH[OF Pairs(1-3)] Object.prems Pairs(4)
    have "consumePairs ext data n 0 (o2 + 1) dummyObject = Returns (r, None, dummyObject)"
      by simp
    with Pairs(1-3) show ?thesis
      by (simp add: consumeObject.simps[of ext data offset dummyObject])
  qed (use Object.prems in auto)
next
  case (Pairs ext data len i offset v)
  note unfold = consumePairs.simps[of ext data len i offset dummyObject]
  show ?case
  proof (cases rule: consumePairs_cases[of i len ext data offset v])
    case Done
    with Pairs.prems show ?thesis by (simp add: unfold)
  next
    case (NestedOk key o1 field subV o2 subV')
    from Pairs.IH(1)[OF NestedOk(1-7) NestedOk(8)]
    have n: "consumeObject ext data o1 dummyObject = Returns (o2, None, dummyObject)" .
    from Pairs.IH(2)[OF NestedOk(1-8)] Pairs.prems NestedOk(9)
    have "consumePairs ext data len (i + 1) o2 dummyObject = Returns (r, None, dummyObject)"
      by simp
    with NestedOk(1-6) n show ?thesis
      by (simp add: unfold dummy_fieldless subDestination_def written_def)
  next
    case (ScalarOk key o1 field val o2 v2)
    from Pairs.IH(3)[OF ScalarOk(1-8)] Pairs.prems ScalarOk(9)
    have "consumePairs ext data len (i + 1) o2 dummyObject = Returns (r, None, dummyObject)"
      by simp
    with ScalarOk(1-7) show ?thesis
      by (simp add: unfold dummy_fieldless assignField_def)
  qed (use Pairs.prems in auto)
qed

lemma map_of_without:
  "map_of (filter (\<lambda>(n, f). n \<notin> S) fs) name = (if name \<in> S then None else map_of fs name)"
  by (induction fs) auto

lemma storeField_removed:
  "name \<in> S \<Longrightarrow>
     filter (\<lambda>(n, f). n \<notin> S) (storeField fs name x) = filter (\<lambda>(n, f). n \<notin> S) fs"
  by (induction fs name x rule: storeField.induct) auto

lemma storeField_kept:
  "name \<notin> S \<Longrightarrow>
     storeField (filter (\<lambda>(n, f). n \<notin> S) fs) name x =
       filter (\<lambda>(n, f). n \<notin> S) (storeField fs name x)"
  by (induction fs name x rule: storeField.induct) auto

lemma FieldByName_without:
  "FieldByName v name = Returns field \<Longrightarrow>
     FieldByName (withoutFields S v) name = Returns (if name \<in> S then None else field)"
  by (auto simp: FieldByName_def withoutFields_def map_of_without split: slot.splits)

lemma store_without:
  "withoutFields S (store v name x) =
     (if name \<in> S then withoutFields S v else store (withoutFields S v) name x)"
  by (cases v) (simp_all add: withoutFields_def storeField_removed storeField_kept)

lemma written_without:
  "FieldByName v name = Returns field \<Longrightarrow>
   withoutFields S (written v name field x) =
     written (withoutFields S v) name (if name \<in> S then None else field) x"
  by (cases field) (simp_all add: written_def store_without)

lemma assignField_without:
  "assignField ext v name field val = Returns v2 \<Longrightarrow>
   assignField ext (withoutFields S v) name (if name \<in> S then None else field) val =
     Returns (withoutFields S v2)"
  by (auto simp: assignField_def store_without split: option.splits outcome.splits)

lemma consume_into_narrower:
  fixes ext :: "('f::zero) externals"
  shows "consumeObject ext data offset v = Returns (r, None, v') \<Longrightarrow>
      consumeObject ext data offset (withoutFields S v) = Returns (r, None, withoutFields S v')"
    and "consumePairs ext data len i offset v = Returns (r, None, v') \<Longrightarrow>
      consumePairs ext data len i offset (withoutFields S v) =
        Returns (r, None, withoutFields S v')"
proof (induction ext data offset v and ext data len i offset v arbitrary: r v' and r v'
    rule: consume_induct)
  case (Object ext data offset v)
  show ?case
  proof (cases rule: consumeObject_cases[of data offset ext v])
    case (Pairs cn o1 n o2)
    from Object.IH[OF Pairs(1-3)] Object.prems Pairs(4)
    have "consumePairs ext data n 0 (o2 + 1) (withoutFields S v) =
        Returns (r, None, withoutFields S v')"
      by simp
    with Pairs(1-3) show ?thesis
      by (simp add: consumeObject.simps[of ext data offset "withoutFields S v"])
  qed (use Object.prems in auto)
next
  case (Pairs ext data len i offset v)
  note unfold = consumePairs.simps[of ext data len i offset "withoutFields S v"]
  show ?case
  proof (cases rule: consumePairs_cases[of i len ext data offset v])
    case Done
    from Done(2) Pairs.prems have "r = offset + 1" "v' = v" by simp_all
    with Done(1) show ?thesis by (simp add: unfold)
  next
    case (NestedOk key o1 field subV o2 subV')
    let ?name = "upperCaseFirstLetter key"
    let ?field = "if ?name \<in> S then None else field"
    note f = FieldByName_without[OF NestedOk(3), of S]
    have sub: "\<exists>subW subW'. subDestination ?field = Returns subW \<and>
        consumeObject ext data o1 subW = Returns (o2, None, subW')
        \<and> written (withoutFields S v) ?name ?field subW' = 
           withoutFields S (written v ?name field subV')"
    proof (cases "?name \<in> S")
      case True
      from written_without[OF NestedOk(3), of S subV'] True
      have "written (withoutFields S v) ?name None dummyObject =
          withoutFields S (written v ?name field subV')"
        by (simp add: written_def)
      with consume_into_dummy(1)[OF NestedOk(8)] True show ?thesis
        by (simp add: subDestination_def)
    next
      case False
      with NestedOk(7,8) show ?thesis 
        by (simp add: written_without[OF NestedOk(3)])
    qed
    then obtain subW subW' where sw: "subDestination ?field = Returns subW"
      "consumeObject ext data o1 subW = Returns (o2, None, subW')"
      "written (withoutFields S v) ?name ?field subW' = 
           withoutFields S (written v ?name field subV')" by blast
    from Pairs.IH(2)[OF NestedOk(1-8)] Pairs.prems NestedOk(9)
    have "consumePairs ext data len (i + 1) o2 (withoutFields S (written v ?name field subV'))
        = Returns (r, None, withoutFields S v')"
      by simp
    with NestedOk(1,2,4-6) f sw show ?thesis
      by (simp add: unfold)
  next
    case (ScalarOk key o1 field val o2 v2)
    note f = FieldByName_without[OF ScalarOk(3), of S]
    note a = assignField_without[OF ScalarOk(8), of S]
    from Pairs.IH(3)[OF ScalarOk(1-8)] Pairs.prems ScalarOk(9)
    have "consumePairs ext data len (i + 1) o2 (withoutFields S v2) =
        Returns (r, None, withoutFields S v')"
      by simp
    with ScalarOk(1,2,4-7) f a show ?thesis
      by (simp add: unfold)
  qed (use Pairs.prems in auto)
qed

section \<open>Decimal numbers read back\<close>

text \<open>
  \<^verbatim>\<open>strconv.Atoi\<close> reads the decimal text of an integer of 64 bits back as that integer.
\<close>

lemma of_char_digitChar_nat: "d < 10 \<Longrightarrow> (of_char (digitChar d) :: nat) = 48 + d"
  by (simp add: digitChar_def)

lemma of_char_digitChar: "d < 10 \<Longrightarrow> (of_char (digitChar d) :: int) = 48 + int d"
  using of_char_digitChar_nat[of d] of_nat_of_char[of "digitChar d", where 'a = int]
  by simp

lemma isDigit_digitChar: "d < 10 \<Longrightarrow> isDigit (digitChar d)"
  by (simp add: isDigit_def of_char_digitChar_nat)

lemma digitChar_neq:
  assumes "d < 10"
  shows "digitChar d \<noteq> CHR '':''" "digitChar d \<noteq> CHR '';''"
    "digitChar d \<noteq> CHR ''-''" "digitChar d \<noteq> CHR ''+''"
proof -
  have ne: "digitChar d \<noteq> c" if "(of_char c :: nat) \<noteq> 48 + d" for c
    using that of_char_digitChar_nat[OF assms] by (metis)
  show "digitChar d \<noteq> CHR '':''"  using assms by (intro ne) simp
  show "digitChar d \<noteq> CHR '';''"  using assms by (intro ne) simp
  show "digitChar d \<noteq> CHR ''-''"  using assms by (intro ne) simp
  show "digitChar d \<noteq> CHR ''+''"  using assms by (intro ne) simp
qed



lemma showNat_small: "n < 10 \<Longrightarrow> showNat n = [digitChar n]"
  by (subst showNat.simps) simp

lemma showNat_big: "\<not> n < 10 \<Longrightarrow> showNat n = showNat (n div 10) @ [digitChar (n mod 10)]"
  by (subst showNat.simps) simp

lemma showNat_digits: "c \<in> set (showNat n) \<Longrightarrow> \<exists>d < 10. c = digitChar d"
proof (induction n rule: showNat.induct)
  case (1 n)
  show ?case
  proof (cases "n < 10")
    case True
    with "1.prems" have "c = digitChar n" by (simp add: showNat_small)
    with True show ?thesis by blast
  next
    case False
    with "1.prems" have "c = digitChar (n mod 10) \<or> c \<in> set (showNat (n div 10))"
      by (simp add: showNat_big)
    then have "c \<in> set (showNat (n div 10)) \<or> c = digitChar (n mod 10)"
      by (rule disj_commute[THEN iffD1])
    then show ?thesis
    proof
      assume "c \<in> set (showNat (n div 10))"
      then show ?thesis by (rule "1.IH"[OF False])
    next
      have "n mod 10 < 10" by simp
      moreover assume "c = digitChar (n mod 10)"
      ultimately show ?thesis by blast
    qed
  qed
qed

lemma showNat_nonempty: "showNat n \<noteq> []"
  by (subst showNat.simps) simp

lemma showNat_free:
  "CHR '':'' \<notin> set (showNat n)" "CHR '';'' \<notin> set (showNat n)"
proof -
  show "CHR '':'' \<notin> set (showNat n)"
  proof
    assume "CHR '':'' \<in> set (showNat n)"
    then obtain d where "d < 10" "CHR '':'' = digitChar d" using showNat_digits by blast
    then show False using digitChar_neq(1)[of d] by simp
  qed
  show "CHR '';'' \<notin> set (showNat n)"
  proof
    assume "CHR '';'' \<in> set (showNat n)"
    then obtain d where "d < 10" "CHR '';'' = digitChar d" using showNat_digits by blast
    then show False using digitChar_neq(2)[of d] by simp
  qed
qed

lemma parseUint_append:
  "parseUint (xs @ ys) a =
     (case parseUint xs a of Inl e \<Rightarrow> Inl e | Inr m \<Rightarrow> parseUint ys m)"
  by (induction xs arbitrary: a) simp_all

lemma parseUint_showNat: "int n < 2 ^ 64 \<Longrightarrow> parseUint (showNat n) 0 = Inr (int n)"
proof (induction n rule: showNat.induct)
  case (1 n)
  show ?case
  proof (cases "n < 10")
    case True
    then show ?thesis
      by (simp add: showNat_small isDigit_digitChar of_char_digitChar)
  next
    case False
    have d: "n mod 10 < 10" by simp
    have "n div 10 * 10 + n mod 10 = n" by simp
    then have split: "int (n div 10) * 10 + int (n mod 10) = int n"
      by (metis of_nat_add of_nat_mult of_nat_numeral)
    with "1.prems" have small: "int (n div 10) < 2 ^ 64" by linarith
    from split "1.prems"
    have le: "\<not> 2 ^ 64 - 1 < int (n div 10) * 10 + (of_char (digitChar (n mod 10)) - 48)"
      and eq: "int (n div 10) * 10 + (of_char (digitChar (n mod 10)) - 48) = int n"
      using of_char_digitChar[OF d] by linarith+
    have "parseUint (showNat n) 0 = parseUint [digitChar (n mod 10)] (int (n div 10))"
      using False "1.IH"[OF False small] by (simp add: showNat_big parseUint_append)
    also have "\<dots> = Inr (int n)"
      using isDigit_digitChar[OF d] le eq
      by (simp only: parseUint.simps if_True if_False not_True_eq_False not_False_eq_True)
    finally show ?thesis .
  qed
qed

lemma showNat_head: "\<exists>d r. d < 10 \<and> showNat n = digitChar d # r"
proof -
  obtain c r where cr: "showNat n = c # r" using showNat_nonempty[of n] by (cases "showNat n") auto
  then have "c \<in> set (showNat n)" by simp
  then obtain d where "d < 10" "c = digitChar d" using showNat_digits by blast
  with cr show ?thesis by blast
qed

lemma Atoi_showNat:
  assumes "int n < 2 ^ 63"
  shows "Atoi (showNat n) = Inr (int n)"
proof -
  obtain d r where d: "d < 10" and sh: "showNat n = digitChar d # r"
    using showNat_head by blast
  from assms have "int n < 2 ^ 64" by simp
  then have p: "parseUint (digitChar d # r) 0 = Inr (int n)"
    using parseUint_showNat[of n] sh by simp
  show ?thesis
    using assms digitChar_neq(3,4)[OF d] p unfolding sh Atoi_def
    by (simp del: parseUint.simps)
qed

lemma Atoi_showInt:
  assumes "- (2 ^ 63) \<le> i" "i < 2 ^ 63"
  shows "Atoi (showInt i) = Inr i"
proof (cases "i < 0")
  case False
  with assms Atoi_showNat[of "nat i"] show ?thesis by (simp add: showInt_def)
next
  case True
  with assms have "int (nat (- i)) < 2 ^ 64" by simp
  then have p: "parseUint (showNat (nat (- i))) 0 = Inr (- i)"
    using parseUint_showNat[of "nat (- i)"] True by simp
  show ?thesis
    using assms True p showNat_nonempty[of "nat (- i)"] unfolding showInt_def Atoi_def
    by (simp del: parseUint.simps)
qed

section \<open>The consumers on what the grammar writes\<close>

text \<open>
  On a buffer that holds, from the offset on, a node of the grammar, and that the
  raw-decode helper leaves as it is, each consumer returns the value of the node and the
  offset just past it.
\<close>

lemma scan_enc: "b \<notin> set ds \<Longrightarrow> scan (ds @ b # post) b k = int (k + length ds)"
  by (induction ds arbitrary: k) auto

lemma findByte_enc:
  "b \<notin> set ds \<Longrightarrow> findByte (pre @ ds @ b # post) b (int (length pre)) = int (length pre + length ds)"
  by (simp add: findByte_def scan_enc)

lemma slice_enc: "slice (pre @ ds @ post) (int (length pre)) (int (length pre + length ds)) = ds"
  by (simp add: slice_def)

lemma consumeStringUntilByte_enc:
  assumes "b \<notin> set ds"
  shows "consumeStringUntilByte (pre @ ds @ b # post) b (int (length pre)) =
           Returns (ds, int (length pre + length ds))"
proof -
  have "slice (pre @ ds @ b # post) (int (length pre)) (int (length pre + length ds)) = ds"
    by (rule slice_enc)
  then show ?thesis
    using findByte_enc[OF assms, of pre post]
    by (simp add: consumeStringUntilByte_def Let_def)
qed

lemma consumeIntPart_enc:
  assumes "int n < 2 ^ 63"
  shows "consumeIntPart (pre @ showNat n @ CHR '':'' # post) (int (length pre)) =
           Returns (int n, int (length pre + length (showNat n)) + 1, None)"
  using consumeStringUntilByte_enc[where ds = "showNat n" and pre = pre and post = post,
      OF showNat_free(1)] Atoi_showNat[OF assms]
  by (simp add: consumeIntPart_def)

lemma consumeStringRealPart_enc:
  assumes data: "data = pre @ showNat (length s) @ CHR '':'' # q1 # s @ q2 # q3 # post"
    and dec: "DecodePHPString ext data = data"
    and len: "int (length data) < 2 ^ 63"
  shows "consumeStringRealPart ext data (int (length pre)) =
           Returns (s, int (length pre + length (showNat (length s)) + length s + 4), None)"
proof -
  from len data have "int (length s) < 2 ^ 63" by simp
  then have ip: "consumeIntPart data (int (length pre)) =
      Returns (int (length s), int (length pre + length (showNat (length s))) + 1, None)"
    unfolding data by (rule consumeIntPart_enc)
  have "data = (pre @ showNat (length s) @ [CHR '':'', q1]) @ s @ (q2 # q3 # post)"
    by (simp add: data)
  then have "slice data (int (length (pre @ showNat (length s) @ [CHR '':'', q1])))
      (int (length (pre @ showNat (length s) @ [CHR '':'', q1]) + length s)) = s"
    using slice_enc[of "pre @ showNat (length s) @ [CHR '':'', q1]" s "q2 # q3 # post"]
    by simp
  then have sl: "slice data (int (length pre + length (showNat (length s))) + 1 + 1)
      (int (length pre + length (showNat (length s))) + 1 + 1 + int (length s)) = s"
    by (simp add: add.commute add.left_commute)
  have inr: "int (length pre + length (showNat (length s))) + 1 + 1 + int (length s)
      \<le> int (length data)"
    by (simp add: data)
  show ?thesis
    using ip sl inr dec
    by (simp add: consumeStringRealPart_def Let_def add.commute add.left_commute)
qed

lemma consumeString_enc:
  assumes data: "data = pre @ encodeString s @ post"
    and dec: "DecodePHPString ext data = data"
    and len: "int (length data) < 2 ^ 63"
  shows "consumeString ext data (int (length pre)) =
           Returns (s, int (length pre + length (encodeString s)), None)"
proof -
  have ct: "checkType data CHR ''s'' (int (length pre))"
    by (simp add: checkType_def data encodeString_def nth_append)
  have "data = (pre @ ''s:'') @ showNat (length s) @ CHR '':'' # CHR 0x22 # s @ CHR 0x22 # CHR '';'' # post"
    by (simp add: data encodeString_def)
  from consumeStringRealPart_enc[OF this dec len]
  have "consumeStringRealPart ext data (int (length pre) + 2) =
      Returns (s, int (length pre + length (encodeString s)), None)"
    by (simp add: encodeString_def add.commute add.left_commute)
  with ct show ?thesis by (simp add: consumeString_def)
qed

lemma showInt_free: "CHR '';'' \<notin> set (showInt i)"
  using showNat_free(2) by (simp add: showInt_def)

lemma consumeInt_enc:
  assumes "- (2 ^ 63) \<le> i" "i < 2 ^ 63"
  shows "consumeInt (pre @ ''i:'' @ showInt i @ '';'' @ post) (int (length pre)) =
           Returns (i, int (length pre + length (''i:'' @ showInt i @ '';'')), None)"
proof -
  let ?data = "pre @ ''i:'' @ showInt i @ '';'' @ post"
  have ct: "checkType ?data CHR ''i'' (int (length pre))"
    by (simp add: checkType_def nth_append)
  have "?data = (pre @ ''i:'') @ showInt i @ CHR '';'' # post" by simp
  then have "consumeStringUntilByte ?data CHR '';'' (int (length (pre @ ''i:''))) =
      Returns (showInt i, int (length (pre @ ''i:'') + length (showInt i)))"
    using consumeStringUntilByte_enc[where ds = "showInt i" and pre = "pre @ ''i:''"
        and post = post, OF showInt_free] by simp
  then have "consumeStringUntilByte ?data CHR '';'' (int (length pre) + 2) =
      Returns (showInt i, int (length pre) + 2 + int (length (showInt i)))"
    by (simp add: add.commute add.left_commute)
  with ct Atoi_showInt[OF assms] show ?thesis
    by (simp add: consumeInt_def)
qed

lemma consumeFloat_enc:
  assumes "t \<noteq> []" "CHR '';'' \<notin> set t" "ParseFloat ext t = Inr x"
  shows "consumeFloat ext (pre @ ''d:'' @ t @ '';'' @ post) (int (length pre)) =
           Returns (x, int (length pre + length (''d:'' @ t @ '';'')), None)"
proof -
  let ?data = "pre @ ''d:'' @ t @ '';'' @ post"
  have ct: "checkType ?data CHR ''d'' (int (length pre))"
    by (simp add: checkType_def nth_append)
  have "?data = (pre @ ''d:'') @ t @ CHR '';'' # post" by simp
  then have "consumeStringUntilByte ?data CHR '';'' (int (length (pre @ ''d:''))) =
      Returns (t, int (length (pre @ ''d:'') + length t))"
    using consumeStringUntilByte_enc[OF assms(2), of "pre @ ''d:''" post] by simp
  then have "consumeStringUntilByte ?data CHR '';'' (int (length pre) + 2) =
      Returns (t, int (length pre) + 2 + int (length t))"
    by (simp add: add.commute add.left_commute)
  with ct assms(1,3) show ?thesis
    by (simp add: consumeFloat_def strconvParseFloat_def)
qed

lemma consumeBool_enc:
  "consumeBool (pre @ ''b:'' @ (if b then ''1'' else ''0'') @ '';'' @ post) (int (length pre)) =
     Returns (b, int (length pre + 4), None)"
  by (simp add: consumeBool_def checkType_def nth_append nat_add_distrib)

lemma consumeNil_enc:
  "consumeNil (pre @ ''N;'' @ post) (int (length pre)) = Returns (VNil, int (length pre + 2), None)"
  by (simp add: consumeNil_def checkType_def nth_append)

lemma consumeNext_enc:
  assumes data: "data = pre @ encode w @ post"
    and dec: "DecodePHPString ext data = data"
    and len: "int (length data) < 2 ^ 63"
    and wf: "wellFormed ext w"
    and sc: "\<not> isObject w"
  shows "consumeNext ext data (int (length pre)) =
           Returns (valueOf ext w, int (length pre + length (encode w)), None)"
proof (cases w)
  case WNull
  then show ?thesis
    using consumeNil_enc[of pre post]
    by (simp add: data consumeNext_def nth_append)
next
  case (WBool b)
  then show ?thesis
    using consumeBool_enc[of pre b post]
    by (simp add: data consumeNext_def nth_append boxed_def)
next
  case (WInt i)
  then show ?thesis
    using consumeInt_enc[of i pre post] wf
    by (simp add: data consumeNext_def nth_append boxed_def)
next
  case (WFloat t)
  with wf obtain x where "ParseFloat ext t = Inr x" by (cases "ParseFloat ext t") auto
  with WFloat show ?thesis
    using consumeFloat_enc[of t ext x pre post] wf
    by (simp add: data consumeNext_def nth_append boxed_def)
next
  case (WString s)
  have "data ! length pre = CHR ''s''"
    by (simp add: data WString encodeString_def nth_append)
  moreover have "int (length pre) < int (length data)"
    by (simp add: data WString encodeString_def)
  moreover have "consumeString ext data (int (length pre)) =
      Returns (s, int (length pre + length (encodeString s)), None)"
    using data dec len WString by (intro consumeString_enc[where post = post]) simp_all
  ultimately show ?thesis
    using WString by (simp add: consumeNext_def boxed_def)
next
  case (WObject c ps)
  with sc show ?thesis by simp
qed

section \<open>One pair of an object\<close>

text \<open>
  \<^verbatim>\<open>consumePairs\<close> on a well-formed pair: the key is read, the field looked up, and
  the loop goes on after the value.
\<close>

lemma encode_scalar_head: "\<not> isObject x \<Longrightarrow> encode x \<noteq> [] \<and> hd (encode x) \<noteq> CHR ''O''"
  by (cases x) (simp_all add: encodeString_def)

lemma encodeHeader_head: "\<exists>r. encodeHeader c n = CHR ''O'' # r"
  by (simp add: encodeHeader_def)

lemma nth_enc_head: "ys \<noteq> [] \<Longrightarrow> (xs @ ys @ zs) ! length xs = hd ys"
  by (cases ys) (simp_all add: nth_append)

lemma setField_panic: "setField ext f val = Panics p \<Longrightarrow> p = ReflectPanic"
  by (cases f; cases "snd f"; cases val; cases "fst f")
    (auto simp: setField_def split: outcome.splits if_splits)

lemma consumePairs_end:
  fixes ext :: "('f::zero) externals"
  shows "\<not> i < len \<Longrightarrow> consumePairs ext data len i off v = Returns (off + 1, None, v)"
  by (subst consumePairs.simps) simp

lemma pair_scalar:
  fixes ext :: "('f::zero) externals"
  assumes data: "data = pre @ encodeString k @ encode x @ post"
    and dec: "DecodePHPString ext data = data"
    and len: "int (length data) < 2 ^ 63"
    and wf: "wellFormed ext x"
    and sc: "\<not> isObject x"
    and i: "i < n"
  shows "consumePairs ext data n i (int (length pre)) v =
     (case FieldByName v (upperCaseFirstLetter k) of
        Panics p \<Rightarrow> Panics p
      | Returns field \<Rightarrow>
          (case assignField ext v (upperCaseFirstLetter k) field (valueOf ext x) of
             Panics p \<Rightarrow> Panics p
           | Returns v' \<Rightarrow>
               consumePairs ext data n (i + 1)
                 (int (length pre + length (encodeString k) + length (encode x))) v'))"
proof -
  have cs: "consumeString ext data (int (length pre)) =
      Returns (k, int (length pre + length (encodeString k)), None)"
    using data dec len by (intro consumeString_enc[where post = "encode x @ post"]) simp_all
  have data': "data = (pre @ encodeString k) @ encode x @ post" by (simp add: data)
  have cn: "consumeNext ext data (int (length (pre @ encodeString k))) =
      Returns (valueOf ext x, int (length (pre @ encodeString k) + length (encode x)), None)"
    using data' dec len wf sc by (rule consumeNext_enc)
  from encode_scalar_head[OF sc] have ne: "encode x \<noteq> []" and hd: "hd (encode x) \<noteq> CHR ''O''"
    by simp_all
  have tag: "data ! (length pre + length (encodeString k)) \<noteq> CHR ''O''"
    using nth_enc_head[OF ne, of "pre @ encodeString k" post] hd by (simp add: data)
  from ne have "1 \<le> length (encode x)" by (cases "encode x") simp_all
  then have inr: "int (length pre + length (encodeString k)) < int (length data)"
    unfolding data length_append by linarith
  show ?thesis
    using cs cn tag inr i
    by (subst consumePairs.simps)
      (simp add: nat_add_distrib add.assoc split: outcome.splits)
qed

lemma encodeString_nonempty: "1 \<le> length (encodeString k)"
  by (simp add: encodeString_def)

lemma encode_lengths:
  shows "1 \<le> length (encode w)" and "count ps \<le> length (encodePairs ps)"
proof (induction w and ps)
  case (WPair k x ps)
  then show ?case using encodeString_nonempty[of k] by simp
qed (simp_all add: encodeString_def encodeHeader_def)

lemma object_header:
  fixes ext :: "('f::zero) externals"
  assumes data: "data = pre @ encodeHeader c n @ post"
    and dec: "DecodePHPString ext data = data"
    and len: "int (length data) < 2 ^ 63"
    and n: "int n < 2 ^ 63"
  shows "consumeObject ext data (int (length pre)) v =
     consumePairs ext data (int n) 0 (int (length pre + length (encodeHeader c n))) v"
proof -
  have ct: "checkType data CHR ''O'' (int (length pre))"
    by (simp add: checkType_def data encodeHeader_def nth_append)
  have "data = (pre @ ''O:'') @ showNat (length c) @ CHR '':'' # CHR 0x22 # c @ CHR 0x22 # CHR '':''
      # (showNat n @ '':{'' @ post)"
    by (simp add: data encodeHeader_def)
  from consumeStringRealPart_enc[OF this dec len]
  have name: "consumeStringRealPart ext data (int (length pre) + 2) =
      Returns (c, int (length pre + length (showNat (length c)) + length c + 6), None)"
    by (simp add: add.commute add.left_commute)
  let ?pre = "pre @ ''O:'' @ showNat (length c) @ [CHR '':'', CHR 0x22] @ c @ [CHR 0x22, CHR '':'']"
  have "data = ?pre @ showNat n @ CHR '':'' # (''{'' @ post)"
    by (simp add: data encodeHeader_def)
  then have "consumeIntPart data (int (length ?pre)) =
      Returns (int n, int (length ?pre + length (showNat n)) + 1, None)"
    using consumeIntPart_enc[OF n, of ?pre "''{'' @ post"] by simp
  then have cnt: "consumeIntPart data (int (length pre + length (showNat (length c)) + length c + 6)) =
      Returns (int n, int (length pre + length (encodeHeader c n)) - 1, None)"
    by (simp add: encodeHeader_def add.commute add.left_commute)
  show ?thesis
    using ct name cnt by (subst consumeObject.simps) simp
qed

lemma pair_object:
  fixes ext :: "('f::zero) externals"
  assumes data: "data = pre @ encodeString k @ encode (WObject c ps) @ post"
    and dec: "DecodePHPString ext data = data"
    and len: "int (length data) < 2 ^ 63"
    and i: "i < n"
  shows "consumePairs ext data n i (int (length pre)) v =
     (case FieldByName v (upperCaseFirstLetter k) of
        Panics p \<Rightarrow> Panics p
      | Returns field \<Rightarrow>
          (case subDestination field of
             Panics p \<Rightarrow> Panics p
           | Returns subV \<Rightarrow>
               (case consumeObject ext data (int (length pre + length (encodeString k))) subV of
                  Panics p \<Rightarrow> Panics p
                | Returns (offset2, Some err, subV') \<Rightarrow>
                    Returns (- 1, Some err, written v (upperCaseFirstLetter k) field subV')
                | Returns (offset2, None, subV') \<Rightarrow>
                    consumePairs ext data n (i + 1) offset2
                      (written v (upperCaseFirstLetter k) field subV'))))"
proof -
  have cs: "consumeString ext data (int (length pre)) =
      Returns (k, int (length pre + length (encodeString k)), None)"
    using data dec len
    by (intro consumeString_enc[where post = "encode (WObject c ps) @ post"]) simp_all
  obtain r where r: "encodeHeader c (count ps) = CHR ''O'' # r"
    using encodeHeader_head by blast
  have "data = (pre @ encodeString k) @ CHR ''O'' # (r @ encodePairs ps @ ''}'' @ post)"
    by (simp add: data r)
  then have tag: "data ! (length pre + length (encodeString k)) = CHR ''O''"
    and inr: "int (length pre + length (encodeString k)) < int (length data)"
    by (simp_all add: nth_append)
  show ?thesis
    using cs tag inr i
    by (subst consumePairs.simps)
      (simp add: nat_add_distrib split: outcome.splits)
qed

section \<open>A well-formed object\<close>

text \<open>
  On a well-formed object \<^verbatim>\<open>consumeObject\<close> returns no error. When no key names a
  field it returns the offset just past the object and the destination as it was; into
  any destination it returns that offset or panics in \<^verbatim>\<open>reflect\<close>.
\<close>

lemma FieldByName_panic: "FieldByName v name = Panics p \<Longrightarrow> p = ReflectPanic"
  by (cases v) (simp_all add: FieldByName_def)

lemma subDestination_panic: "subDestination field = Panics p \<Longrightarrow> p = ReflectPanic"
  by (cases field) (simp_all add: subDestination_def AddrInterface_def dummyObject_def split: if_splits)

lemma assignField_panic: "assignField ext v name field val = Panics p \<Longrightarrow> p = ReflectPanic"
  by (cases field)
    (auto simp: assignField_def split: outcome.splits dest: setField_panic)

lemma decode_encode:
  fixes ext :: "('f::zero) externals"
  shows "\<lbrakk>data = pre @ encode w @ post; DecodePHPString ext data = data;
      int (length data) < 2 ^ 63; wellFormed ext w; w = WObject c qs\<rbrakk> \<Longrightarrow>
     ((\<forall>k\<in>set (keys qs). FieldByName v (upperCaseFirstLetter k) = Returns None) \<longrightarrow>
        consumeObject ext data (int (length pre)) v =
          Returns (int (length pre + length (encode w)), None, v)) \<and>
     (consumeObject ext data (int (length pre)) v = Panics ReflectPanic \<or>
      (\<exists>v'. consumeObject ext data (int (length pre)) v =
          Returns (int (length pre + length (encode w)), None, v')))"
    and "\<lbrakk>data = pre @ encodePairs ps @ post; DecodePHPString ext data = data;
      int (length data) < 2 ^ 63; wellFormedPairs ext ps; n = i + int (count ps)\<rbrakk> \<Longrightarrow>
     ((\<forall>k\<in>set (keys ps). FieldByName v (upperCaseFirstLetter k) = Returns None) \<longrightarrow>
        consumePairs ext data n i (int (length pre)) v =
          Returns (int (length pre + length (encodePairs ps)) + 1, None, v)) \<and>
     (consumePairs ext data n i (int (length pre)) v = Panics ReflectPanic \<or>
      (\<exists>v'. consumePairs ext data n i (int (length pre)) v =
          Returns (int (length pre + length (encodePairs ps)) + 1, None, v')))"
proof (induction w and ps arbitrary: pre post v c qs and pre post v i n)
  case (WObject c' ps)
  from WObject.prems(5) have eq: "c' = c" "ps = qs" by simp_all
  have "count ps \<le> length (encodePairs ps)" by (rule encode_lengths(2))
  also have "\<dots> \<le> length data" by (simp add: WObject.prems(1))
  finally have cnt: "int (count ps) < 2 ^ 63" using WObject.prems(3) by linarith
  have data1: "data = pre @ encodeHeader c' (count ps) @ (encodePairs ps @ ''}'' @ post)"
    by (simp add: WObject.prems(1))
  have hdr: "consumeObject ext data (int (length pre)) v =
      consumePairs ext data (int (count ps)) 0 (int (length pre + length (encodeHeader c' (count ps)))) v"
    using data1 WObject.prems(2,3) cnt by (rule object_header)
  have data2: "data = (pre @ encodeHeader c' (count ps)) @ encodePairs ps @ (''}'' @ post)"
    by (simp add: WObject.prems(1))
  from WObject.prems(4) have wf: "wellFormedPairs ext ps" by simp
  have "int (count ps) = 0 + int (count ps)" by simp
  from WObject.IH[OF data2 WObject.prems(2,3) wf this, of v] hdr eq
  show ?case by (simp add: algebra_simps)
next
  case WEnd
  then have "\<not> i < n" by simp
  then show ?case using WEnd.prems(1) by (simp add: consumePairs_end)
next
  case (WPair k x ps)
  let ?off1 = "length pre + length (encodeString k) + length (encode x)"
  let ?E = "int (length pre + length (encodePairs (WPair k x ps))) + 1"
  let ?r = "consumePairs ext data n i (int (length pre)) v"
  from WPair.prems(5) have i: "i < n" and n: "n = (i + 1) + int (count ps)" by simp_all
  from WPair.prems(4) have wfx: "wellFormed ext x" and wfps: "wellFormedPairs ext ps"
    by simp_all
  have data2: "data = (pre @ encodeString k @ encode x) @ encodePairs ps @ post"
    by (simp add: WPair.prems(1))
  have cont1: "consumePairs ext data n (i + 1) (int ?off1) u = Returns (?E, None, u)"
    if "\<forall>k\<in>set (keys ps). FieldByName u (upperCaseFirstLetter k) = Returns None" for u
    using WPair.IH(2)[OF data2 WPair.prems(2,3) wfps n, of u] that by (simp add: add.assoc)
  have cont2: "consumePairs ext data n (i + 1) (int ?off1) u = Panics ReflectPanic \<or>
      (\<exists>v'. consumePairs ext data n (i + 1) (int ?off1) u = Returns (?E, None, v'))" for u
    using WPair.IH(2)[OF data2 WPair.prems(2,3) wfps n, of u] by (simp add: add.assoc)
  have data1: "data = pre @ encodeString k @ encode x @ (encodePairs ps @ post)"
    by (simp add: WPair.prems(1))
  show ?case
  proof (cases "isObject x")
    case False
    note step = pair_scalar[OF data1 WPair.prems(2,3) wfx False i, of v]
    have part1: "?r = Returns (?E, None, v)"
      if un: "\<forall>k\<in>set (keys (WPair k x ps)). FieldByName v (upperCaseFirstLetter k) = Returns None"
    proof -
      from un have "FieldByName v (upperCaseFirstLetter k) = Returns None" by simp
      moreover from un have "consumePairs ext data n (i + 1) (int ?off1) v = Returns (?E, None, v)"
        by (intro cont1) simp
      ultimately show ?thesis by (simp add: step assignField_def)
    qed
    have part2: "?r = Panics ReflectPanic \<or> (\<exists>v'. ?r = Returns (?E, None, v'))"
    proof (cases "FieldByName v (upperCaseFirstLetter k)")
      case (Panics p)
      then show ?thesis using FieldByName_panic[OF Panics] by (simp add: step)
    next
      case (Returns field)
      show ?thesis
      proof (cases "assignField ext v (upperCaseFirstLetter k) field (valueOf ext x)")
        case (Panics p)
        then show ?thesis using assignField_panic[OF Panics] Returns by (simp add: step)
      next
        case asg: (Returns u)
        show ?thesis using cont2[of u] Returns asg by (simp add: step)
      qed
    qed
    from part1 part2 show ?thesis by blast
  next
    case True
    then obtain c' qs' where x: "x = WObject c' qs'" by (cases x) simp_all
    have data1': "data = pre @ encodeString k @ encode (WObject c' qs') @ (encodePairs ps @ post)"
      using data1 x by simp
    note step = pair_object[OF data1' WPair.prems(2,3) i, of v]
    have data3: "data = (pre @ encodeString k) @ encode x @ (encodePairs ps @ post)"
      by (simp add: WPair.prems(1))
    note nested = WPair.IH(1)[OF data3 WPair.prems(2,3) wfx x]
    have nested1: "consumeObject ext data (int (length pre + length (encodeString k))) dummyObject =
        Returns (int ?off1, None, dummyObject)"
      using nested[of dummyObject] by (simp add: dummy_fieldless add.assoc)
    have nested2: "consumeObject ext data (int (length pre + length (encodeString k))) u =
          Panics ReflectPanic \<or>
        (\<exists>u'. consumeObject ext data (int (length pre + length (encodeString k))) u =
          Returns (int ?off1, None, u'))" for u
      using nested[of u] by (simp add: add.assoc)
    have part1: "?r = Returns (?E, None, v)"
      if un: "\<forall>k\<in>set (keys (WPair k x ps)). FieldByName v (upperCaseFirstLetter k) = Returns None"
    proof -
      from un have "FieldByName v (upperCaseFirstLetter k) = Returns None" by simp
      moreover from un have "consumePairs ext data n (i + 1) (int ?off1) v = Returns (?E, None, v)"
        by (intro cont1) simp
      ultimately show ?thesis
        using nested1 by (simp add: step subDestination_def written_def)
    qed
    have part2: "?r = Panics ReflectPanic \<or> (\<exists>v'. ?r = Returns (?E, None, v'))"
    proof (cases "FieldByName v (upperCaseFirstLetter k)")
      case (Panics p)
      then show ?thesis using FieldByName_panic[OF Panics] by (simp add: step)
    next
      case (Returns field)
      show ?thesis
      proof (cases "subDestination field")
        case (Panics p)
        then show ?thesis using subDestination_panic[OF Panics] Returns by (simp add: step)
      next
        case sub: (Returns u)
        from nested2[of u] show ?thesis
        proof
          assume "consumeObject ext data (int (length pre + length (encodeString k))) u =
            Panics ReflectPanic"
          then show ?thesis using Returns sub by (simp add: step)
        next
          assume "\<exists>u'. consumeObject ext data (int (length pre + length (encodeString k))) u =
            Returns (int ?off1, None, u')"
          then obtain u' where "consumeObject ext data (int (length pre + length (encodeString k))) u =
            Returns (int ?off1, None, u')" by blast
          then show ?thesis
            using Returns sub cont2[of "written v (upperCaseFirstLetter k) field u'"]
            by (simp add: step)
        qed
      qed
    qed
    from part1 part2 show ?thesis by blast
  qed
qed simp_all

lemma unmatched_pair:
  fixes ext :: "('f::zero) externals"
  assumes data: "data = pre @ encodeString k @ encode x @ post"
    and dec: "DecodePHPString ext data = data"
    and len: "int (length data) < 2 ^ 63"
    and wf: "wellFormed ext x"
    and i: "i < n"
    and un: "FieldByName v (upperCaseFirstLetter k) = Returns None"
  shows "consumePairs ext data n i (int (length pre)) v =
     consumePairs ext data n (i + 1)
       (int (length pre + length (encodeString k) + length (encode x))) v"
proof (cases "isObject x")
  case False
  show ?thesis
    using un by (simp add: pair_scalar[OF data dec len wf False i] assignField_def)
next
  case True
  then obtain c qs where x: "x = WObject c qs" by (cases x) simp_all
  have data': "data = pre @ encodeString k @ encode (WObject c qs) @ post"
    using data x by simp
  have data3: "data = (pre @ encodeString k) @ encode x @ post"
    by (simp add: data)
  have "consumeObject ext data (int (length pre + length (encodeString k))) dummyObject =
      Returns (int (length pre + length (encodeString k) + length (encode x)), None, dummyObject)"
    using decode_encode(1)[OF data3 dec len wf x, of dummyObject]
    by (simp add: dummy_fieldless add.assoc)
  then show ?thesis
    using un by (simp add: pair_object[OF data' dec len i] subDestination_def written_def)
qed

text \<open>
  C2: an object node written as the grammar of section 6 says, well formed, anywhere in
  a buffer that the raw-decode helper leaves as it is and whose length fits Go's
  \<^verbatim>\<open>int\<close>. First, in the loop of \<^verbatim>\<open>consumeObject\<close>, a pair whose key, its first
  character capitalized, names no field of the destination is consumed and discarded,
  whatever its well-formed value is (\<^verbatim>\<open>N;\<close>, another scalar, or a nested object, which is
  decoded into a \<^verbatim>\<open>dummyObject\<close>): the loop goes on at the next pair, the destination as
  it was, and no error is returned for the pair. Second, when none of the keys names a
  field, \<^verbatim>\<open>consumeObject\<close> succeeds, returns the offset just past the node and leaves the
  destination as it was; and into any destination it returns that same offset, without
  error, unless it panics in \<^verbatim>\<open>reflect\<close>. Third, on every such buffer, whatever it
  holds, when the decode into a record succeeds, the decode into the record without any
  set \<open>S\<close> of its fields, and the decode into the \<^verbatim>\<open>dummyObject\<close>, succeed with the same
  final offset, the remaining fields written as before.
\<close>

theorem unmatched_keys_are_skipped:
  fixes ext :: "('f::zero) externals"
  assumes "DecodePHPString ext data = data" and "int (length data) < 2 ^ 63"
  shows
    "(\<forall>pre k x post i n v.
        data = pre @ encodeString k @ encode x @ post \<and> wellFormed ext x \<and> i < n \<and>
        FieldByName v (upperCaseFirstLetter k) = Returns None \<longrightarrow>
        consumePairs ext data n i (int (length pre)) v =
          consumePairs ext data n (i + 1)
            (int (length pre + length (encodeString k) + length (encode x))) v) \<and>
     (\<forall>pre c ps post v.
        data = pre @ encode (WObject c ps) @ post \<and> wellFormed ext (WObject c ps) \<longrightarrow>
        ((\<forall>k\<in>set (keys ps). FieldByName v (upperCaseFirstLetter k) = Returns None) \<longrightarrow>
           consumeObject ext data (int (length pre)) v =
             Returns (int (length pre + length (encode (WObject c ps))), None, v)) \<and>
        (consumeObject ext data (int (length pre)) v = Panics ReflectPanic \<or>
         (\<exists>v'. consumeObject ext data (int (length pre)) v =
             Returns (int (length pre + length (encode (WObject c ps))), None, v')))) \<and>
     (\<forall>offset v r v' S.
        consumeObject ext data offset v = Returns (r, None, v') \<longrightarrow>
        consumeObject ext data offset (withoutFields S v) =
          Returns (r, None, withoutFields S v') \<and>
        consumeObject ext data offset dummyObject = Returns (r, None, dummyObject))"
proof (intro conjI allI impI)
  fix pre k post :: string and x :: wire and i n :: int and v :: "'f slot"
  assume "data = pre @ encodeString k @ encode x @ post \<and> wellFormed ext x \<and> i < n \<and>
        FieldByName v (upperCaseFirstLetter k) = Returns None"
  then show "consumePairs ext data n i (int (length pre)) v =
          consumePairs ext data n (i + 1)
            (int (length pre + length (encodeString k) + length (encode x))) v"
    using unmatched_pair[OF _ assms] by blast
next
  fix pre c post :: string and ps :: wpairs and v :: "'f slot"
  assume h: "data = pre @ encode (WObject c ps) @ post \<and> wellFormed ext (WObject c ps)"
  assume "\<forall>k\<in>set (keys ps). FieldByName v (upperCaseFirstLetter k) = Returns None"
  then show "consumeObject ext data (int (length pre)) v =
      Returns (int (length pre + length (encode (WObject c ps))), None, v)"
    using decode_encode(1)[OF _ assms _ refl, of pre c ps post v] h by blast
next
  fix pre c post :: string and ps :: wpairs and v :: "'f slot"
  assume h: "data = pre @ encode (WObject c ps) @ post \<and> wellFormed ext (WObject c ps)"
  then show "consumeObject ext data (int (length pre)) v = Panics ReflectPanic \<or>
         (\<exists>v'. consumeObject ext data (int (length pre)) v =
             Returns (int (length pre + length (encode (WObject c ps))), None, v'))"
    using decode_encode(1)[OF _ assms _ refl, of pre c ps post v] by blast
next
  fix offset r :: int and S :: "string set" and v v' :: "'f slot"
  assume "consumeObject ext data offset v = Returns (r, None, v')"
  then show "consumeObject ext data offset (withoutFields S v) =
          Returns (r, None, withoutFields S v')"
    by (rule consume_into_narrower(1))
next
  fix offset r :: int and v v' :: "'f slot"
  assume "consumeObject ext data offset v = Returns (r, None, v')"
  then show "consumeObject ext data offset dummyObject = Returns (r, None, dummyObject)"
    by (rule consume_into_dummy(1))
qed

theorem unmatched_keys_are_skipped_witness:
  \<open>consumePairs plainText ''O:1:"P":3:{s:1:"a";N;s:1:"b";O:1:"Q":1:{s:1:"c";b:1;}s:1:"d";i:7;}'' 3 0 11
     (SStruct [(''D'', True, SInt KInt 0)]) =
   consumePairs plainText ''O:1:"P":3:{s:1:"a";N;s:1:"b";O:1:"Q":1:{s:1:"c";b:1;}s:1:"d";i:7;}'' 3 1 21
     (SStruct [(''D'', True, SInt KInt 0)]) \<and>
   consumePairs plainText ''O:1:"P":3:{s:1:"a";N;s:1:"b";O:1:"Q":1:{s:1:"c";b:1;}s:1:"d";i:7;}'' 3 1 21
     (SStruct [(''D'', True, SInt KInt 0)]) =
   consumePairs plainText ''O:1:"P":3:{s:1:"a";N;s:1:"b";O:1:"Q":1:{s:1:"c";b:1;}s:1:"d";i:7;}'' 3 2 53
     (SStruct [(''D'', True, SInt KInt 0)]) \<and>
   consumeObject plainText ''O:1:"P":3:{s:1:"a";N;s:1:"b";O:1:"Q":1:{s:1:"c";b:1;}s:1:"d";i:7;}'' 0
     (SStruct [(''E'', True, SString [])]) = Returns (66, None, SStruct [(''E'', True, SString [])]) \<and>
   consumeObject plainText ''O:1:"P":3:{s:1:"a";N;s:1:"b";O:1:"Q":1:{s:1:"c";b:1;}s:1:"d";i:7;}'' 0
     (SStruct [(''D'', True, SInt KInt 0), (''B'', True, SStruct [(''C'', True, SBool False)])]) =
     Returns (66, None,
       SStruct [(''D'', True, SInt KInt 7), (''B'', True, SStruct [(''C'', True, SBool True)])]) \<and>
   consumeObject plainText ''O:1:"P":3:{s:1:"a";N;s:1:"b";O:1:"Q":1:{s:1:"c";b:1;}s:1:"d";i:7;}'' 0
     (SStruct [(''D'', True, SInt KInt 0)]) =
     Returns (66, None, SStruct [(''D'', True, SInt KInt 7)]) \<and>
   consumeObject plainText ''O:1:"P":3:{s:1:"a";N;s:1:"b";O:1:"Q":1:{s:1:"c";b:1;}s:1:"d";i:7;}'' 0
     dummyObject = Returns (66, None, dummyObject)\<close>
proof -
  let ?data = \<open>''O:1:"P":3:{s:1:"a";N;s:1:"b";O:1:"Q":1:{s:1:"c";b:1;}s:1:"d";i:7;}''\<close>
  let ?inner = "WObject ''Q'' (WPair ''c'' (WBool True) WEnd)"
  let ?ps = "WPair ''a'' WNull (WPair ''b'' ?inner (WPair ''d'' (WInt 7) WEnd))"
  let ?V = "SStruct [(''D'', True, SInt KInt 0)] :: real slot"
  let ?E = "SStruct [(''E'', True, SString [])] :: real slot"
  have keys: "upperCaseFirstLetter ''a'' = ''A''" "upperCaseFirstLetter ''b'' = ''B''"
    "upperCaseFirstLetter ''c'' = ''C''" "upperCaseFirstLetter ''d'' = ''D''"
    by (simp_all add: upperCaseFirstLetter_def toUpper_def char_of_eq_iff)
  have enc: \<open>encodeString ''a'' = ''s:1:"a";''\<close> \<open>encodeString ''b'' = ''s:1:"b";''\<close>
    \<open>encode ?inner = ''O:1:"Q":1:{s:1:"c";b:1;}''\<close>
    \<open>encode (WObject ''P'' ?ps) = ?data\<close>
    by code_simp+
  have dec: "DecodePHPString plainText ?data = ?data" by (simp add: plainText_def)
  have len: "int (length ?data) < 2 ^ 63" by simp
  note skip = unmatched_keys_are_skipped[OF dec len]
  have pair_a: \<open>?data = ''O:1:"P":3:{'' @ encodeString ''a'' @ encode WNull @
      ''s:1:"b";O:1:"Q":1:{s:1:"c";b:1;}s:1:"d";i:7;}''\<close>
    by (simp add: enc)
  have pair_b: \<open>?data = ''O:1:"P":3:{s:1:"a";N;'' @ encodeString ''b'' @ encode ?inner @
      ''s:1:"d";i:7;}''\<close>
    by (simp only: enc) simp
  have whole: "?data = [] @ encode (WObject ''P'' ?ps) @ []"
    by (simp only: enc append_Nil append_Nil2)
  have s1: "consumePairs plainText ?data 3 0 11 ?V = consumePairs plainText ?data 3 1 21 ?V"
    using skip[THEN conjunct1, rule_format, of _ "''a''" WNull _ 0 3 ?V, OF conjI, OF pair_a]
    by (simp add: keys FieldByName_def enc)
  have s2: "consumePairs plainText ?data 3 1 21 ?V = consumePairs plainText ?data 3 2 53 ?V"
    using skip[THEN conjunct1, rule_format, of _ "''b''" ?inner _ 1 3 ?V, OF conjI, OF pair_b]
    unfolding enc by (simp add: keys FieldByName_def)
  have un: "\<forall>k\<in>set (keys ?ps). FieldByName ?E (upperCaseFirstLetter k) = Returns None"
    by (simp add: keys FieldByName_def)
  have wfw: "?data = [] @ encode (WObject ''P'' ?ps) @ [] \<and> wellFormed plainText (WObject ''P'' ?ps)"
    by (rule conjI[OF whole]) simp
  have s3: "consumeObject plainText ?data 0 ?E = Returns (66, None, ?E)"
    using skip[THEN conjunct2, THEN conjunct1, THEN spec, THEN spec, THEN spec, THEN spec,
        THEN spec, THEN mp, OF wfw, THEN conjunct1, THEN mp, OF un]
    unfolding enc by simp
  have full:
    "consumeObject plainText ?data 0
     (SStruct [(''D'', True, SInt KInt 0), (''B'', True, SStruct [(''C'', True, SBool False)])]) =
     Returns (66, None,
       SStruct [(''D'', True, SInt KInt 7), (''B'', True, SStruct [(''C'', True, SBool True)])])"
    by (simp add: consumeObject.simps consumePairs.simps consumeString_def
        consumeStringRealPart_def consumeIntPart_def checkType_def consumeStringUntilByte_def
        findByte_def slice_def Atoi_def isDigit_def FieldByName_def keys
        consumeNext_def boxed_def consumeInt_def consumeBool_def consumeNil_def assignField_def
        setField_def subDestination_def AddrInterface_def written_def plainText_def
        dummyObject_def)
  have narrow: "withoutFields {''B''}
      (SStruct [(''D'', True, SInt KInt x), (''B'', True, SStruct [(''C'', True, SBool b)])]) =
      (SStruct [(''D'', True, SInt KInt x)] :: real slot)" for x b
    by (simp add: withoutFields_def)
  from skip[THEN conjunct2, THEN conjunct2, rule_format, OF full, of "{''B''}"]
  have s4: "consumeObject plainText ?data 0 ?V = Returns (66, None, SStruct [(''D'', True, SInt KInt 7)])"
    and s5: "consumeObject plainText ?data 0 dummyObject = Returns (66, None, dummyObject)"
    by (simp_all add: narrow)
  from s1 s2 s3 full s4 s5 show ?thesis by (intro conjI)
qed

section \<open>The bytes a consumer reads\<close>

text \<open>
  A consumer started at an offset reads no byte before that offset and, when it succeeds,
  none at or after the offset it returns (\<^verbatim>\<open>consumeObject\<close>: none at or after the byte
  before the offset it returns); of the text that the raw-decode helper makes of the
  buffer it reads the same range. So on two buffers that agree on that range, as their
  decoded texts do, it returns the same result; on a run that does not succeed the range
  is the rest of the buffer and of the decoded text.
\<close>

lemma agreeOn_mono:
  "agreeOn data data' lo hi \<Longrightarrow> lo \<le> lo' \<Longrightarrow> hi' \<le> hi \<Longrightarrow> agreeOn data data' lo' hi'"
  by (auto simp: agreeOn_def)

lemma agreeOn_nth:
  "agreeOn data data' lo hi \<Longrightarrow> lo \<le> j \<Longrightarrow> j < hi \<Longrightarrow> 0 \<le> j \<Longrightarrow> j < int (length data) \<Longrightarrow>
     data' ! nat j = data ! nat j"
  by (auto simp: agreeOn_def)

lemma agreeOn_at:
  "agreeOn data data' lo hi \<Longrightarrow> lo \<le> int j \<Longrightarrow> int j < hi \<Longrightarrow> j < length data \<Longrightarrow>
     data' ! j = data ! j"
  by (simp add: agreeOn_def)

lemma agreeOn_checkType:
  "agreeOn data data' lo hi \<Longrightarrow> lo \<le> offset \<Longrightarrow>
     int (length data) \<le> hi \<or> offset < hi \<Longrightarrow>
     checkType data' c offset = checkType data c offset"
  by (auto simp: agreeOn_def checkType_def)

lemma scan_agree:
  assumes "length ys = length xs"
    and "\<forall>j. j < k \<and> j < length xs \<longrightarrow> ys ! j = xs ! j"
    and "length xs \<le> k \<or> (scan xs b i \<noteq> - 1 \<and> scan xs b i < int i + int k)"
  shows "scan ys b i = scan xs b i"
  using assms
proof (induction xs b i arbitrary: ys k rule: scan.induct)
  case (1 b i)
  then show ?case by simp
next
  case (2 c cs b i)
  from "2.prems"(1) obtain d ds where ys: "ys = d # ds" and l: "length ds = length cs"
    by (cases ys) auto
  from scan_range[of "c # cs" b i] "2.prems"(3) have k: "0 < k" by auto
  then obtain k' where k': "k = Suc k'" by (cases k) auto
  from "2.prems"(2) k have d: "d = c" by (auto simp: ys)
  show ?case
  proof (cases "c = b")
    case True
    with d ys show ?thesis by simp
  next
    case False
    have a: "\<forall>j. j < k' \<and> j < length cs \<longrightarrow> ds ! j = cs ! j"
      using "2.prems"(2) by (auto simp: ys k')
    have c: "length cs \<le> k' \<or> (scan cs b (Suc i) \<noteq> - 1 \<and> scan cs b (Suc i) < int (Suc i) + int k')"
      using "2.prems"(3) False by (auto simp: k')
    from "2.IH"[OF False l a c] False d ys show ?thesis by simp
  qed
qed

lemma findByte_agree:
  assumes "agreeOn data data' offset bound" and "0 \<le> offset"
    and "int (length data) \<le> bound \<or> (0 \<le> findByte data b offset \<and> findByte data b offset < bound)"
  shows "findByte data' b offset = findByte data b offset"
proof -
  let ?n = "nat offset"
  let ?k = "nat (bound - offset)"
  have l: "length (drop ?n data') = length (drop ?n data)"
    using assms(1) by (simp add: agreeOn_def)
  have "data' ! (?n + j) = data ! (?n + j)" if "j < ?k" "j < length data - ?n" for j
    using assms(2) that by (intro agreeOn_at[OF assms(1)]) auto
  with l have a:
    "\<forall>j. j < ?k \<and> j < length (drop ?n data) \<longrightarrow> drop ?n data' ! j = drop ?n data ! j"
    by auto
  have c: "length (drop ?n data) \<le> ?k \<or>
      (scan (drop ?n data) b ?n \<noteq> - 1 \<and> scan (drop ?n data) b ?n < int ?n + int ?k)"
    using assms(2,3) by (auto simp: findByte_def)
  from scan_agree[OF l a c] show ?thesis by (simp add: findByte_def)
qed

lemma slice_agree:
  assumes "agreeOn data data' lo bound" and "0 \<le> lo" and "hi \<le> bound"
  shows "slice data' lo hi = slice data lo hi"
proof -
  have "take (nat (hi - lo)) (drop (nat lo) data') = take (nat (hi - lo)) (drop (nat lo) data)"
  proof (rule nth_equalityI)
    show "length (take (nat (hi - lo)) (drop (nat lo) data')) =
        length (take (nat (hi - lo)) (drop (nat lo) data))"
      using assms(1) by (simp add: agreeOn_def)
  next
    fix i
    assume i: "i < length (take (nat (hi - lo)) (drop (nat lo) data'))"
    have len: "length data' = length data" using assms(1) by (simp add: agreeOn_def)
    from i len assms(2,3) have "data' ! (nat lo + i) = data ! (nat lo + i)"
      by (intro agreeOn_at[OF assms(1)]) auto
    moreover from i have "i < length data' - nat lo" by simp
    with len have "nat lo \<le> length data" "nat lo \<le> length data'"
      by linarith+
    ultimately show "take (nat (hi - lo)) (drop (nat lo) data') ! i =
        take (nat (hi - lo)) (drop (nat lo) data) ! i"
      using i by simp
  qed
  then show ?thesis by (simp add: slice_def)
qed

lemma consumeStringUntilByte_agree:
  assumes "agreeOn data data' offset bound" and "0 \<le> offset"
    and "int (length data) \<le> bound \<or>
      (\<exists>s n. consumeStringUntilByte data b offset = Returns (s, n) \<and> 0 \<le> n \<and> n < bound)"
  shows "consumeStringUntilByte data' b offset = consumeStringUntilByte data b offset"
proof -
  have c: "int (length data) \<le> bound \<or>
      (0 \<le> findByte data b offset \<and> findByte data b offset < bound)"
    using assms(3) by (auto simp: consumeStringUntilByte_def Let_def split: if_splits)
  note fb = findByte_agree[OF assms(1,2) c]
  have len: "length data' = length data" using assms(1) by (simp add: agreeOn_def)
  show ?thesis
  proof (cases "findByte data b offset < 0")
    case True
    with fb show ?thesis by (simp add: consumeStringUntilByte_def)
  next
    case False
    with findByte_range[of data b offset] c
    have "findByte data b offset \<le> bound" by auto
    from slice_agree[OF assms(1,2) this] fb len show ?thesis
      by (simp add: consumeStringUntilByte_def Let_def)
  qed
qed

lemma consumeIntPart_agree:
  assumes "agreeOn data data' offset bound" and "0 \<le> offset"
    and "int (length data) \<le> bound \<or>
      (\<exists>x r. consumeIntPart data offset = Returns (x, r, None) \<and> r \<le> bound)"
  shows "consumeIntPart data' offset = consumeIntPart data offset"
proof -
  have "int (length data) \<le> bound \<or>
      (\<exists>s n. consumeStringUntilByte data CHR '':'' offset = Returns (s, n) \<and> 0 \<le> n \<and> n < bound)"
    using assms(3)
    by (auto simp: consumeIntPart_def Atoi_empty split: outcome.splits sum.splits prod.splits
        dest!: consumeStringUntilByte_found)
  from consumeStringUntilByte_agree[OF assms(1,2) this] show ?thesis
    by (simp add: consumeIntPart_def)
qed

lemma consumeStringRealPart_agree:
  assumes "agreeOn data data' offset bound" and "0 \<le> offset"
    and "agreeOn (DecodePHPString ext data) (DecodePHPString ext data') offset bound"
    and "(int (length data) \<le> bound \<and> int (length (DecodePHPString ext data)) \<le> bound) \<or>
      (\<exists>x r. consumeStringRealPart ext data offset = Returns (x, r, None) \<and> r \<le> bound)"
  shows "consumeStringRealPart ext data' offset = consumeStringRealPart ext data offset"
proof -
  have len: "length (DecodePHPString ext data') = length (DecodePHPString ext data)"
    using assms(3) by (simp add: agreeOn_def)
  have c: "int (length data) \<le> bound \<or>
      (\<exists>x r. consumeIntPart data offset = Returns (x, r, None) \<and> r \<le> bound)"
    using assms(4)
    by (auto simp: consumeStringRealPart_def Let_def
        split: outcome.splits option.splits prod.splits if_splits)
  note ip = consumeIntPart_agree[OF assms(1,2) c]
  show ?thesis
  proof (cases "consumeIntPart data offset")
    case (Panics p)
    with ip show ?thesis by (simp add: consumeStringRealPart_def)
  next
    case (Returns x)
    obtain n o1 e where x: "x = (n, o1, e)" by (cases x)
    show ?thesis
    proof (cases e)
      case (Some a)
      with ip Returns x show ?thesis by (simp add: consumeStringRealPart_def)
    next
      case None
      note r = Returns[unfolded x None]
      from consumeIntPart_ok[OF r] have o1: "offset < o1" "o1 \<le> int (length data)" by auto
      show ?thesis
      proof (cases "0 \<le> o1 + 1 \<and> o1 + 1 \<le> o1 + 1 + n \<and>
          o1 + 1 + n \<le> int (length (DecodePHPString ext data))")
        case False
        with ip r len show ?thesis
          by (auto simp: consumeStringRealPart_def Let_def)
      next
        case True
        have "o1 + 1 + n \<le> bound"
          using assms(4) True r
          by (auto simp: consumeStringRealPart_def Let_def)
        from slice_agree[OF agreeOn_mono[OF assms(3), of "o1 + 1" bound] _ this] o1 assms(2)
        have "slice (DecodePHPString ext data') (o1 + 1) (o1 + 1 + n) =
            slice (DecodePHPString ext data) (o1 + 1) (o1 + 1 + n)"
          by simp
        with ip r len True show ?thesis
          by (simp add: consumeStringRealPart_def Let_def)
      qed
    qed
  qed
qed


lemma consumeString_agree:
  assumes "agreeOn data data' offset bound"
    and "agreeOn (DecodePHPString ext data) (DecodePHPString ext data') offset bound"
    and "(int (length data) \<le> bound \<and> int (length (DecodePHPString ext data)) \<le> bound) \<or>
      (\<exists>x r. consumeString ext data offset = Returns (x, r, None) \<and> r \<le> bound)"
  shows "consumeString ext data' offset = consumeString ext data offset"
proof -
  have "int (length data) \<le> bound \<or> offset < bound"
    using assms(3) by (auto dest!: consumeString_ok)
  from agreeOn_checkType[OF assms(1) _ this]
  have ct: "checkType data' CHR ''s'' offset = checkType data CHR ''s'' offset" by simp
  show ?thesis
  proof (cases "checkType data CHR ''s'' offset")
    case False
    with ct show ?thesis by (simp add: consumeString_def)
  next
    case True
    then have o: "0 \<le> offset + 2" by (simp add: checkType_def)
    have c: "(int (length data) \<le> bound \<and> int (length (DecodePHPString ext data)) \<le> bound) \<or>
        (\<exists>x r. consumeStringRealPart ext data (offset + 2) = Returns (x, r, None) \<and> r \<le> bound)"
      using assms(3) True by (simp add: consumeString_def)
    from consumeStringRealPart_agree[OF agreeOn_mono[OF assms(1), of "offset + 2" bound]
        o agreeOn_mono[OF assms(2), of "offset + 2" bound] c] ct True
    show ?thesis by (simp add: consumeString_def)
  qed
qed

lemma consumeInt_agree:
  assumes "agreeOn data data' offset bound"
    and "int (length data) \<le> bound \<or>
      (\<exists>x r. consumeInt data offset = Returns (x, r, None) \<and> r \<le> bound)"
  shows "consumeInt data' offset = consumeInt data offset"
proof -
  have "int (length data) \<le> bound \<or> offset < bound"
    using assms(2) by (auto dest!: consumeInt_ok)
  from agreeOn_checkType[OF assms(1) _ this]
  have ct: "checkType data' CHR ''i'' offset = checkType data CHR ''i'' offset" by simp
  show ?thesis
  proof (cases "checkType data CHR ''i'' offset")
    case False
    with ct show ?thesis by (simp add: consumeInt_def)
  next
    case True
    then have o: "0 \<le> offset + 2" by (simp add: checkType_def)
    have c: "int (length data) \<le> bound \<or>
        (\<exists>s n. consumeStringUntilByte data CHR '';'' (offset + 2) = Returns (s, n) \<and>
          0 \<le> n \<and> n < bound)"
      using assms(2) True
      by (auto simp: consumeInt_def Atoi_empty split: outcome.splits sum.splits prod.splits
          dest!: consumeStringUntilByte_found)
    from consumeStringUntilByte_agree[OF agreeOn_mono[OF assms(1), of "offset + 2" bound] o c]
      ct True
    show ?thesis by (simp add: consumeInt_def)
  qed
qed

lemma consumeFloat_agree:
  assumes "agreeOn data data' offset bound"
    and "int (length data) \<le> bound \<or>
      (\<exists>x r. consumeFloat ext data offset = Returns (x, r, None) \<and> r \<le> bound)"
  shows "consumeFloat ext data' offset = consumeFloat ext data offset"
proof -
  have "int (length data) \<le> bound \<or> offset < bound"
    using assms(2) by (auto dest!: consumeFloat_ok)
  from agreeOn_checkType[OF assms(1) _ this]
  have ct: "checkType data' CHR ''d'' offset = checkType data CHR ''d'' offset" by simp
  show ?thesis
  proof (cases "checkType data CHR ''d'' offset")
    case False
    with ct show ?thesis by (simp add: consumeFloat_def)
  next
    case True
    then have o: "0 \<le> offset + 2" by (simp add: checkType_def)
    have c: "int (length data) \<le> bound \<or>
        (\<exists>s n. consumeStringUntilByte data CHR '';'' (offset + 2) = Returns (s, n) \<and>
          0 \<le> n \<and> n < bound)"
      using assms(2) True
      by (auto simp: consumeFloat_def strconvParseFloat_def
          split: outcome.splits sum.splits prod.splits if_splits
          dest!: consumeStringUntilByte_found)
    from consumeStringUntilByte_agree[OF agreeOn_mono[OF assms(1), of "offset + 2" bound] o c]
      ct True
    show ?thesis by (simp add: consumeFloat_def)
  qed
qed

lemma consumeBool_agree:
  assumes "agreeOn data data' offset bound"
    and "int (length data) \<le> bound \<or>
      (\<exists>x r. consumeBool data offset = Returns (x, r, None) \<and> r \<le> bound)"
  shows "consumeBool data' offset = consumeBool data offset"
proof -
  have len: "length data' = length data" using assms(1) by (simp add: agreeOn_def)
  have b: "int (length data) \<le> bound \<or> offset + 4 \<le> bound"
    using assms(2) by (auto simp: consumeBool_def split: if_splits)
  then have "int (length data) \<le> bound \<or> offset < bound" by auto
  from agreeOn_checkType[OF assms(1) _ this]
  have ct: "checkType data' CHR ''b'' offset = checkType data CHR ''b'' offset" by simp
  have "data' ! nat (offset + 2) = data ! nat (offset + 2)"
    if "0 \<le> offset" "offset + 2 < int (length data)"
    using that b by (intro agreeOn_nth[OF assms(1)]) auto
  with ct len show ?thesis
    by (auto simp: consumeBool_def checkType_def)
qed

lemma consumeNil_agree:
  assumes "agreeOn data data' offset bound"
    and "int (length data) \<le> bound \<or>
      (\<exists>x r. consumeNil data offset = Returns (x, r, None) \<and> r \<le> bound)"
  shows "consumeNil data' offset = consumeNil data offset"
proof -
  have "int (length data) \<le> bound \<or> offset < bound"
    using assms(2) by (auto simp: consumeNil_def split: if_splits)
  from agreeOn_checkType[OF assms(1) _ this]
  show ?thesis by (simp add: consumeNil_def)
qed

lemma consumeNext_agree:
  fixes ext :: "('f::zero) externals"
  assumes "agreeOn data data' offset bound"
    and "agreeOn (DecodePHPString ext data) (DecodePHPString ext data') offset bound"
    and "(int (length data) \<le> bound \<and> int (length (DecodePHPString ext data)) \<le> bound) \<or>
      (\<exists>x r. consumeNext ext data offset = Returns (x, r, None) \<and> r \<le> bound)"
  shows "consumeNext ext data' offset = consumeNext ext data offset"
proof -
  have len: "length data' = length data" using assms(1) by (simp add: agreeOn_def)
  show ?thesis
  proof (cases "0 \<le> offset \<and> offset < int (length data)")
    case False
    with len show ?thesis by (auto simp: consumeNext_def)
  next
    case True
    have "int (length data) \<le> bound \<or> offset < bound"
      using assms(3) by (auto dest!: consumeNext_ok)
    with True have tag: "data' ! nat offset = data ! nat offset"
      by (intro agreeOn_nth[OF assms(1)]) auto
    have drop: "drop (nat offset) data' = drop (nat offset) data"
      if "int (length data) \<le> bound"
    proof (rule nth_equalityI)
      show "length (drop (nat offset) data') = length (drop (nat offset) data)"
        using len by simp
    next
      fix i
      assume i: "i < length (drop (nat offset) data')"
      with len True that have "data' ! (nat offset + i) = data ! (nat offset + i)"
        by (intro agreeOn_at[OF assms(1)]) auto
      with i len True show "drop (nat offset) data' ! i = drop (nat offset) data ! i"
        by simp
    qed
    have bc: "int (length data) \<le> bound \<or>
        (\<exists>x r. consumeBool data offset = Returns (x, r, None) \<and> r \<le> bound)"
      if "data ! nat offset = CHR ''b''"
      using assms(3) True that
      by (auto simp: consumeNext_def boxed_def split: outcome.splits prod.splits)
    have dc: "int (length data) \<le> bound \<or>
        (\<exists>x r. consumeFloat ext data offset = Returns (x, r, None) \<and> r \<le> bound)"
      if "data ! nat offset = CHR ''d''"
      using assms(3) True that
      by (auto simp: consumeNext_def boxed_def split: outcome.splits prod.splits)
    have ic: "int (length data) \<le> bound \<or>
        (\<exists>x r. consumeInt data offset = Returns (x, r, None) \<and> r \<le> bound)"
      if "data ! nat offset = CHR ''i''"
      using assms(3) True that
      by (auto simp: consumeNext_def boxed_def split: outcome.splits prod.splits)
    have sc: "(int (length data) \<le> bound \<and> int (length (DecodePHPString ext data)) \<le> bound) \<or>
        (\<exists>x r. consumeString ext data offset = Returns (x, r, None) \<and> r \<le> bound)"
      if "data ! nat offset = CHR ''s''"
      using assms(3) True that
      by (auto simp: consumeNext_def boxed_def split: outcome.splits prod.splits)
    have nc: "int (length data) \<le> bound \<or>
        (\<exists>x r. (consumeNil data offset :: ('f value \<times> int \<times> error option) outcome) =
           Returns (x, r, None) \<and> r \<le> bound)"
      if "data ! nat offset = CHR ''N''"
      using assms(3) True that
      by (auto simp: consumeNext_def boxed_def split: outcome.splits prod.splits)
    have oc: "int (length data) \<le> bound"
      if "data ! nat offset \<notin> {CHR ''b'', CHR ''d'', CHR ''i'', CHR ''s'', CHR ''N''}"
      using assms(3) True that
      by (auto simp: consumeNext_def)
    show ?thesis
      using True len tag consumeBool_agree[OF assms(1) bc] consumeFloat_agree[OF assms(1) dc]
        consumeInt_agree[OF assms(1) ic] consumeString_agree[OF assms(1,2) sc]
        consumeNil_agree[OF assms(1) nc] drop[OF oc]
      by (auto simp: consumeNext_def)
  qed
qed


lemma consume_agree:
  fixes ext :: "('f::zero) externals"
  shows "agreeOn data data' offset bound \<Longrightarrow>
      agreeOn (DecodePHPString ext data) (DecodePHPString ext data') offset bound \<Longrightarrow>
      (int (length data) \<le> bound \<and> int (length (DecodePHPString ext data)) \<le> bound) \<or>
        (\<exists>r v'. consumeObject ext data offset v = Returns (r, None, v') \<and> r \<le> bound + 1) \<Longrightarrow>
      consumeObject ext data' offset v = consumeObject ext data offset v"
    and "agreeOn data data' offset bound \<Longrightarrow>
      agreeOn (DecodePHPString ext data) (DecodePHPString ext data') offset bound \<Longrightarrow>
      (int (length data) \<le> bound \<and> int (length (DecodePHPString ext data)) \<le> bound) \<or>
        (\<exists>r v'. consumePairs ext data len i offset v = Returns (r, None, v') \<and> r \<le> bound + 1) \<Longrightarrow>
      consumePairs ext data' len i offset v = consumePairs ext data len i offset v"
proof (induction ext data offset v and ext data len i offset v rule: consume_induct)
  case (Object ext data offset v)
  note ag = Object.prems(1) and dag = Object.prems(2) and cov = Object.prems(3)
  note unfold = consumeObject.simps[of ext data' offset v]
  have ct: "checkType data' CHR ''O'' offset = checkType data CHR ''O'' offset"
    if "int (length data) \<le> bound \<or> offset < bound"
    using agreeOn_checkType[OF ag _ that] by simp
  have nm: "consumeStringRealPart ext data' (offset + 2) =
      consumeStringRealPart ext data (offset + 2)"
    if "checkType data CHR ''O'' offset"
      "(int (length data) \<le> bound \<and> int (length (DecodePHPString ext data)) \<le> bound) \<or>
        (\<exists>x r. consumeStringRealPart ext data (offset + 2) = Returns (x, r, None) \<and> r \<le> bound)"
    using consumeStringRealPart_agree[OF agreeOn_mono[OF ag, of "offset + 2" bound] _
        agreeOn_mono[OF dag, of "offset + 2" bound] that(2)]
      that(1) by (simp add: checkType_def)
  have cnt: "consumeIntPart data' o1 = consumeIntPart data o1"
    if "consumeStringRealPart ext data (offset + 2) = Returns (cn, o1, None)"
      "checkType data CHR ''O'' offset"
      "int (length data) \<le> bound \<or>
        (\<exists>x r. consumeIntPart data o1 = Returns (x, r, None) \<and> r \<le> bound)"
    for cn o1
    using consumeIntPart_agree[OF agreeOn_mono[OF ag, of o1 bound] _ that(3)]
      consumeStringRealPart_ok[OF that(1)] that(2) by (simp add: checkType_def)
  show ?case
  proof (cases rule: consumeObject_cases[of data offset ext v])
    case NotObject
    with cov have k: "int (length data) \<le> bound"
      and kd: "int (length (DecodePHPString ext data)) \<le> bound" by simp_all
    with ct NotObject show ?thesis by (simp add: unfold)
  next
    case (NamePanic p)
    with cov have k: "int (length data) \<le> bound"
      and kd: "int (length (DecodePHPString ext data)) \<le> bound" by simp_all
    with ct nm NamePanic show ?thesis by (simp add: unfold)
  next
    case (NameError cn o1 e)
    with cov have k: "int (length data) \<le> bound"
      and kd: "int (length (DecodePHPString ext data)) \<le> bound" by simp_all
    with ct nm NameError show ?thesis by (simp add: unfold)
  next
    case (CountPanic cn o1 p)
    with cov have k: "int (length data) \<le> bound"
      and kd: "int (length (DecodePHPString ext data)) \<le> bound" by simp_all
    with ct nm cnt[OF CountPanic(2,1)] CountPanic show ?thesis by (simp add: unfold)
  next
    case (CountError cn o1 n o2 e)
    with cov have k: "int (length data) \<le> bound"
      and kd: "int (length (DecodePHPString ext data)) \<le> bound" by simp_all
    with ct nm cnt[OF CountError(2,1)] CountError show ?thesis by (simp add: unfold)
  next
    case (Pairs cn o1 n o2)
    note a = consumeStringRealPart_ok[OF Pairs(2)] and b = consumeIntPart_ok[OF Pairs(3)]
    have far: "(int (length data) \<le> bound \<and> int (length (DecodePHPString ext data)) \<le> bound) \<or> o2 + 1 < bound + 1"
      using cov Pairs(4) by (auto dest: consume_result_shape(2))
    have cov': "(int (length data) \<le> bound \<and> int (length (DecodePHPString ext data)) \<le> bound) \<or>
        (\<exists>r v'. consumePairs ext data n 0 (o2 + 1) v = Returns (r, None, v') \<and> r \<le> bound + 1)"
      using cov Pairs(4) by simp
    from far a b have c1: "int (length data) \<le> bound \<or> offset < bound" by auto
    from far a b Pairs(2) have c2: "(int (length data) \<le> bound \<and> int (length (DecodePHPString ext data)) \<le> bound) \<or>
        (\<exists>x r. consumeStringRealPart ext data (offset + 2) = Returns (x, r, None) \<and> r \<le> bound)"
      by auto
    from far b Pairs(3) have c3: "int (length data) \<le> bound \<or>
        (\<exists>x r. consumeIntPart data o1 = Returns (x, r, None) \<and> r \<le> bound)"
      by auto
    from a b have "offset \<le> o2 + 1" by simp
    from Object.IH[OF Pairs(1-3) agreeOn_mono[OF ag this, of bound]
        agreeOn_mono[OF dag this, of bound] cov']
    have "consumePairs ext data' n 0 (o2 + 1) v = consumePairs ext data n 0 (o2 + 1) v"
      by simp
    with ct[OF c1] nm[OF Pairs(1) c2] cnt[OF Pairs(2,1) c3] Pairs show ?thesis
      by (simp add: unfold)
  qed
next
  case (Pairs ext data len i offset v)
  note ag = Pairs.prems(1) and dag = Pairs.prems(2) and cov = Pairs.prems(3)
  note unfold = consumePairs.simps[of ext data' len i offset v]
  have len: "length data' = length data" using ag by (simp add: agreeOn_def)
  have key: "consumeString ext data' offset = consumeString ext data offset"
    if "(int (length data) \<le> bound \<and> int (length (DecodePHPString ext data)) \<le> bound) \<or>
        (\<exists>x r. consumeString ext data offset = Returns (x, r, None) \<and> r \<le> bound)"
    using consumeString_agree[OF ag dag that] .
  have tag: "data' ! nat o1 = data ! nat o1"
    if "consumeString ext data offset = Returns (k, o1, None)" "o1 < int (length data)"
      "int (length data) \<le> bound \<or> o1 < bound" for k o1
    using consumeString_ok[OF that(1)] that(2,3) by (intro agreeOn_nth[OF ag]) auto
  have nxt: "consumeNext ext data' o1 = consumeNext ext data o1"
    if "consumeString ext data offset = Returns (k, o1, None)"
      "(int (length data) \<le> bound \<and> int (length (DecodePHPString ext data)) \<le> bound) \<or>
        (\<exists>x r. consumeNext ext data o1 = Returns (x, r, None) \<and> r \<le> bound)" for k o1
    using consumeNext_agree[OF agreeOn_mono[OF ag, of o1 bound]
        agreeOn_mono[OF dag, of o1 bound] that(2)]
      consumeString_ok[OF that(1)] by simp
  show ?case
  proof (cases rule: consumePairs_cases[of i len ext data offset v])
    case Done
    then show ?thesis by (simp add: unfold)
  next
    case (KeyPanic p)
    with cov have k: "int (length data) \<le> bound"
      and kd: "int (length (DecodePHPString ext data)) \<le> bound" by simp_all
    with key KeyPanic show ?thesis by (simp add: unfold)
  next
    case (KeyError key o1 e)
    with cov have k: "int (length data) \<le> bound"
      and kd: "int (length (DecodePHPString ext data)) \<le> bound" by simp_all
    with key KeyError show ?thesis by (simp add: unfold)
  next
    case (FieldPanic k o1 p)
    with cov have "int (length data) \<le> bound"
      and "int (length (DecodePHPString ext data)) \<le> bound" by simp_all
    with key FieldPanic show ?thesis by (simp add: unfold)
  next
    case (TagOutOfRange k o1 field)
    with cov have "int (length data) \<le> bound"
      and "int (length (DecodePHPString ext data)) \<le> bound" by simp_all
    with key TagOutOfRange len show ?thesis by (auto simp: unfold)
  next
    case (AddrPanic k o1 field p)
    with cov have "int (length data) \<le> bound"
      and "int (length (DecodePHPString ext data)) \<le> bound" by simp_all
    with key tag[OF AddrPanic(2,5)] AddrPanic len show ?thesis by (simp add: unfold)
  next
    case (NestedPanic k o1 field subV p)
    with cov have kk: "int (length data) \<le> bound"
      and kd: "int (length (DecodePHPString ext data)) \<le> bound" by simp_all
    from consumeString_ok[OF NestedPanic(2)] have "offset \<le> o1" by simp
    from Pairs.IH(1)[OF NestedPanic(1-7) agreeOn_mono[OF ag this, of bound]
        agreeOn_mono[OF dag this, of bound]] kk kd
    have "consumeObject ext data' o1 subV = consumeObject ext data o1 subV" by simp
    with kk key tag[OF NestedPanic(2,5)] NestedPanic len show ?thesis by (simp add: unfold)
  next
    case (NestedError k o1 field subV o2 e subV')
    with cov have kk: "int (length data) \<le> bound"
      and kd: "int (length (DecodePHPString ext data)) \<le> bound" by simp_all
    from consumeString_ok[OF NestedError(2)] have "offset \<le> o1" by simp
    from Pairs.IH(1)[OF NestedError(1-7) agreeOn_mono[OF ag this, of bound]
        agreeOn_mono[OF dag this, of bound]] kk kd
    have "consumeObject ext data' o1 subV = consumeObject ext data o1 subV" by simp
    with kk key tag[OF NestedError(2,5)] NestedError len show ?thesis by (simp add: unfold)
  next
    case (NestedOk k o1 field subV o2 subV')
    note s = consumeString_ok[OF NestedOk(2)]
    note n = consume_result_shape(1)[OF NestedOk(8)]
    have far: "(int (length data) \<le> bound \<and> int (length (DecodePHPString ext data)) \<le> bound) \<or> o2 < bound + 1"
      using cov NestedOk(9) by (auto dest: consume_result_shape(2))
    have cov': "(int (length data) \<le> bound \<and> int (length (DecodePHPString ext data)) \<le> bound) \<or>
        (\<exists>r v'. consumePairs ext data len (i + 1) o2
            (written v (upperCaseFirstLetter k) field subV') = Returns (r, None, v') \<and>
          r \<le> bound + 1)"
      using cov NestedOk(9) by simp
    from far n NestedOk(2) have c1: "(int (length data) \<le> bound \<and> int (length (DecodePHPString ext data)) \<le> bound) \<or>
        (\<exists>x r. consumeString ext data offset = Returns (x, r, None) \<and> r \<le> bound)"
      by auto
    from far n have c2: "int (length data) \<le> bound \<or> o1 < bound" by auto
    from far NestedOk(8) have c3: "(int (length data) \<le> bound \<and> int (length (DecodePHPString ext data)) \<le> bound) \<or>
        (\<exists>r v'. consumeObject ext data o1 subV = Returns (r, None, v') \<and> r \<le> bound + 1)"
      by auto
    from s have "offset \<le> o1" by simp
    from Pairs.IH(1)[OF NestedOk(1-7) agreeOn_mono[OF ag this, of bound]
        agreeOn_mono[OF dag this, of bound] c3]
    have nested: "consumeObject ext data' o1 subV = consumeObject ext data o1 subV" by simp
    from s n have "offset \<le> o2" by simp
    from Pairs.IH(2)[OF NestedOk(1-8) agreeOn_mono[OF ag this, of bound]
        agreeOn_mono[OF dag this, of bound] cov']
    have "consumePairs ext data' len (i + 1) o2 (written v (upperCaseFirstLetter k) field subV') =
        consumePairs ext data len (i + 1) o2 (written v (upperCaseFirstLetter k) field subV')"
      by simp
    with key[OF c1] tag[OF NestedOk(2,5) c2] nested NestedOk len show ?thesis
      by (simp add: unfold)
  next
    case (ScalarPanic k o1 field p)
    with cov have kk: "int (length data) \<le> bound"
      and kd: "int (length (DecodePHPString ext data)) \<le> bound" by simp_all
    with key tag[OF ScalarPanic(2,5)] nxt[OF ScalarPanic(2)] ScalarPanic len show ?thesis
      by (simp add: unfold)
  next
    case (ScalarError k o1 field val o2 e)
    with cov have kk: "int (length data) \<le> bound"
      and kd: "int (length (DecodePHPString ext data)) \<le> bound" by simp_all
    with key tag[OF ScalarError(2,5)] nxt[OF ScalarError(2)] ScalarError len show ?thesis
      by (simp add: unfold)
  next
    case (AssignPanic k o1 field val o2 p)
    with cov have kk: "int (length data) \<le> bound"
      and kd: "int (length (DecodePHPString ext data)) \<le> bound" by simp_all
    with key tag[OF AssignPanic(2,5)] nxt[OF AssignPanic(2)] AssignPanic len show ?thesis
      by (simp add: unfold)
  next
    case (ScalarOk k o1 field val o2 v2)
    note s = consumeString_ok[OF ScalarOk(2)]
    note n = consumeNext_ok[OF ScalarOk(7)]
    have far: "(int (length data) \<le> bound \<and> int (length (DecodePHPString ext data)) \<le> bound) \<or> o2 < bound + 1"
      using cov ScalarOk(9) by (auto dest: consume_result_shape(2))
    have cov': "(int (length data) \<le> bound \<and> int (length (DecodePHPString ext data)) \<le> bound) \<or>
        (\<exists>r v'. consumePairs ext data len (i + 1) o2 v2 = Returns (r, None, v') \<and>
          r \<le> bound + 1)"
      using cov ScalarOk(9) by simp
    from far n ScalarOk(2) have c1: "(int (length data) \<le> bound \<and> int (length (DecodePHPString ext data)) \<le> bound) \<or>
        (\<exists>x r. consumeString ext data offset = Returns (x, r, None) \<and> r \<le> bound)"
      by auto
    from far n have c2: "int (length data) \<le> bound \<or> o1 < bound" by auto
    from far ScalarOk(7) have c3: "(int (length data) \<le> bound \<and> int (length (DecodePHPString ext data)) \<le> bound) \<or>
        (\<exists>x r. consumeNext ext data o1 = Returns (x, r, None) \<and> r \<le> bound)"
      by auto
    from s n have "offset \<le> o2" by simp
    from Pairs.IH(3)[OF ScalarOk(1-8) agreeOn_mono[OF ag this, of bound]
        agreeOn_mono[OF dag this, of bound] cov']
    have "consumePairs ext data' len (i + 1) o2 v2 = consumePairs ext data len (i + 1) o2 v2"
      by simp
    with key[OF c1] tag[OF ScalarOk(2,5) c2] nxt[OF ScalarOk(2) c3] ScalarOk len show ?thesis
      by (simp add: unfold)
  qed
qed

text \<open>
  C10, as amended: \<^verbatim>\<open>consumeObject\<close> does not inspect the byte after the element
  count, where \<^verbatim>\<open>{\<close> is expected, nor, when it succeeds, the byte before the offset it
  returns, where \<^verbatim>\<open>}\<close> is expected. Take two buffers of the same length, of which the
  raw-decode helper makes texts of the same length, and let the buffers, and these texts,
  differ at most at the first of these positions and, when the decode of the one
  succeeds, at the second. Then \<^verbatim>\<open>consumeObject\<close> returns identical results on the two:
  the same error or panic, the same writes to the destination, the same final offset.
\<close>

theorem braces_are_not_inspected:
  fixes ext :: "('f::zero) externals"
  assumes len: "length data' = length data"
    and declen: "length (DecodePHPString ext data') = length (DecodePHPString ext data)"
    and name: "consumeStringRealPart ext data (offset + 2) = Returns (className, offset1, None)"
    and count: "consumeIntPart data offset1 = Returns (n, lbrace, None)"
    and differ: "\<forall>j < length data. data' ! j \<noteq> data ! j \<longrightarrow>
      int j = lbrace \<or>
      (\<exists>dest'. consumeObject ext data offset v = Returns (int j + 1, None, dest'))"
    and differDec: "\<forall>j < length (DecodePHPString ext data).
      DecodePHPString ext data' ! j \<noteq> DecodePHPString ext data ! j \<longrightarrow>
      int j = lbrace \<or>
      (\<exists>dest'. consumeObject ext data offset v = Returns (int j + 1, None, dest'))"
  shows "consumeObject ext data' offset v = consumeObject ext data offset v"
proof -
  note a = consumeStringRealPart_ok[OF name] and b = consumeIntPart_ok[OF count]
  show ?thesis
  proof (cases "checkType data CHR ''O'' offset")
    case False
    then have fail: "consumeObject ext data offset v =
        Returns (- 1, Some (ErrorString ''not an object''), v)"
      by (simp add: consumeObject.simps)
    have "data' ! nat offset = data ! nat offset" if "0 \<le> offset" "offset < int (length data)"
    proof (rule ccontr)
      assume neq: "data' ! nat offset \<noteq> data ! nat offset"
      from that have "nat offset < length data" "int (nat offset) = offset" by simp_all
      with differ[rule_format, of "nat offset"] neq fail a b show False by auto
    qed
    with False len have "\<not> checkType data' CHR ''O'' offset"
      by (auto simp: checkType_def)
    with fail show ?thesis by (simp add: consumeObject.simps)
  next
    case ct: True
    then have o: "0 \<le> offset" "offset < int (length data)" by (simp_all add: checkType_def)
    have obj: "consumeObject ext data offset v = consumePairs ext data n 0 (lbrace + 1) v"
      using ct name count by (simp add: consumeObject.simps)
    define bound where "bound =
      (case consumeObject ext data offset v of
         Returns (r, None, dest') \<Rightarrow> r - 1
       | _ \<Rightarrow> max (int (length data)) (int (length (DecodePHPString ext data))))"
    have later: "lbrace + 1 < r"
      if "consumeObject ext data offset v = Returns (r, None, dest')" for r dest'
      using that obj consume_result_shape(2)[of ext data n 0 "lbrace + 1" v r None dest']
      by simp
    have before: "xs' ! j = xs ! j"
      if "\<forall>j < length xs. xs' ! j \<noteq> xs ! j \<longrightarrow> int j = lbrace \<or>
          (\<exists>dest'. consumeObject ext data offset v = Returns (int j + 1, None, dest'))"
        "int j < lbrace" "j < length xs" for xs xs' :: string and j
    proof (rule ccontr)
      assume "xs' ! j \<noteq> xs ! j"
      with that obtain dest' where
        "consumeObject ext data offset v = Returns (int j + 1, None, dest')"
        by auto
      from later[OF this] that(2) show False by simp
    qed
    have after: "xs' ! j = xs ! j"
      if "\<forall>j < length xs. xs' ! j \<noteq> xs ! j \<longrightarrow> int j = lbrace \<or>
          (\<exists>dest'. consumeObject ext data offset v = Returns (int j + 1, None, dest'))"
        "lbrace + 1 \<le> int j" "int j < bound" "j < length xs" for xs xs' :: string and j
    proof (rule ccontr)
      assume "xs' ! j \<noteq> xs ! j"
      with that obtain dest' where
        "consumeObject ext data offset v = Returns (int j + 1, None, dest')"
        by auto
      with that(3) show False by (simp add: bound_def)
    qed
    have head: "agreeOn data data' offset lbrace"
      unfolding agreeOn_def using len before[OF differ] by blast
    have dhead: "agreeOn (DecodePHPString ext data) (DecodePHPString ext data') offset lbrace"
      unfolding agreeOn_def using declen before[OF differDec] by blast
    have tail: "agreeOn data data' (lbrace + 1) bound"
      unfolding agreeOn_def using len after[OF differ] by blast
    have dtail: "agreeOn (DecodePHPString ext data) (DecodePHPString ext data') (lbrace + 1) bound"
      unfolding agreeOn_def using declen after[OF differDec] by blast
    have cov: "(int (length data) \<le> bound \<and> int (length (DecodePHPString ext data)) \<le> bound) \<or>
        (\<exists>r v'. consumePairs ext data n 0 (lbrace + 1) v = Returns (r, None, v') \<and>
          r \<le> bound + 1)"
      unfolding bound_def obj[symmetric]
      by (auto split: outcome.splits prod.splits option.splits)
    from a b have ct': "checkType data' CHR ''O'' offset"
      using agreeOn_checkType[OF head, of offset "CHR ''O''"] ct by simp
    from a b o have name': "consumeStringRealPart ext data' (offset + 2) =
        Returns (className, offset1, None)"
      using consumeStringRealPart_agree[OF agreeOn_mono[OF head, of "offset + 2" lbrace] _
          agreeOn_mono[OF dhead, of "offset + 2" lbrace]]
        name by auto
    from a b have count': "consumeIntPart data' offset1 = Returns (n, lbrace, None)"
      using consumeIntPart_agree[OF agreeOn_mono[OF head, of offset1 lbrace]] count by auto
    from ct' name' count'
    have "consumeObject ext data' offset v = consumePairs ext data' n 0 (lbrace + 1) v"
      by (simp add: consumeObject.simps)
    with consume_agree(2)[OF tail dtail cov] obj show ?thesis by simp
  qed
qed

theorem braces_are_not_inspected_witness:
  \<open>consumeStringRealPart plainText ''O:1:"P":1:{s:1:"a";i:7;}'' (0 + 2) = Returns (''P'', 8, None) \<and>
   consumeIntPart ''O:1:"P":1:{s:1:"a";i:7;}'' 8 = Returns (1, 10, None) \<and>
   consumeObject plainText ''O:1:"P":1:{s:1:"a";i:7;}'' 0 (SStruct [(''A'', True, SInt KInt 0)]) =
     Returns (24, None, SStruct [(''A'', True, SInt KInt 7)]) \<and>
   consumeObject plainText ''O:1:"P":1:[s:1:"a";i:7;]'' 0 (SStruct [(''A'', True, SInt KInt 0)]) =
     Returns (24, None, SStruct [(''A'', True, SInt KInt 7)])\<close>
proof -
  let ?data = \<open>''O:1:"P":1:{s:1:"a";i:7;}''\<close>
  let ?data' = \<open>''O:1:"P":1:[s:1:"a";i:7;]''\<close>
  let ?v = "SStruct [(''A'', True, SInt KInt 0)] :: real slot"
  have keys: "upperCaseFirstLetter ''a'' = ''A''"
    by (simp add: upperCaseFirstLetter_def toUpper_def char_of_eq_iff)
  have d: "DecodePHPString plainText ?data = ?data" "DecodePHPString plainText ?data' = ?data'"
    by (simp_all add: plainText_def)
  have l: "length ?data' = length ?data" by simp
  have nm: "consumeStringRealPart plainText ?data (0 + 2) = Returns (''P'', 8, None)"
    by (simp add: consumeStringRealPart_def consumeIntPart_def consumeStringUntilByte_def
        findByte_def slice_def Atoi_def isDigit_def plainText_def)
  have ct: "consumeIntPart ?data 8 = Returns (1, 10, None)"
    by (simp add: consumeIntPart_def consumeStringUntilByte_def findByte_def slice_def
        Atoi_def isDigit_def)
  have full: "consumeObject plainText ?data 0 ?v =
      Returns (24, None, SStruct [(''A'', True, SInt KInt 7)])"
    by (simp add: consumeObject.simps consumePairs.simps consumeString_def
        consumeStringRealPart_def consumeIntPart_def checkType_def consumeStringUntilByte_def
        findByte_def slice_def Atoi_def isDigit_def FieldByName_def keys
        consumeNext_def boxed_def consumeInt_def assignField_def
        setField_def plainText_def)
  have upd: "?data' = ?data[10 := CHR ''['', 23 := CHR '']'']" by simp
  have same: "?data' ! j = ?data ! j" if "j \<noteq> 10" "j \<noteq> 23" for j
  proof -
    have "?data' ! j = ?data[10 := CHR ''['', 23 := CHR '']''] ! j"
      by (subst upd) (rule refl)
    also have "\<dots> = ?data[10 := CHR ''[''] ! j"
      by (rule nth_list_update_neq) (use that in simp)
    also have "\<dots> = ?data ! j"
      by (rule nth_list_update_neq) (use that in simp)
    finally show ?thesis .
  qed
  have df: "\<forall>j < length ?data. ?data' ! j \<noteq> ?data ! j \<longrightarrow>
      int j = 10 \<or> (\<exists>dest'. consumeObject plainText ?data 0 ?v = Returns (int j + 1, None, dest'))"
  proof (intro allI impI)
    fix j
    assume "?data' ! j \<noteq> ?data ! j"
    with same[of j] have "j = 10 \<or> j = 23" by blast
    with full show "int j = 10 \<or>
        (\<exists>dest'. consumeObject plainText ?data 0 ?v = Returns (int j + 1, None, dest'))"
      by auto
  qed
  have dl: "length (DecodePHPString plainText ?data') = length (DecodePHPString plainText ?data)"
    by (simp add: plainText_def)
  have ddf: "\<forall>j < length (DecodePHPString plainText ?data).
      DecodePHPString plainText ?data' ! j \<noteq> DecodePHPString plainText ?data ! j \<longrightarrow>
      int j = 10 \<or> (\<exists>dest'. consumeObject plainText ?data 0 ?v = Returns (int j + 1, None, dest'))"
    using df unfolding d .
  from braces_are_not_inspected[OF l dl nm ct df ddf] nm ct full show ?thesis by simp
qed

text \<open>
  C10 as stated fails: when the decode does not run to the end of the object, the byte
  where its \<^verbatim>\<open>}\<close> is expected can be read as part of what precedes it. On an object
  whose value has the tag \<^verbatim>\<open>a\<close>, \<^verbatim>\<open>consumeNext\<close> copies the rest of the buffer into its
  error, so that two buffers that differ at the closing position only give two errors.
\<close>

theorem closing_brace_counterexample:
  \<open>consumeObject plainText ''O:1:"A":1:{s:1:"a";a:0:{}}'' 0 dummyObject =
     Returns (- 1, Some (ErrorString ''can not consume type: a:0:{}}''), dummyObject) \<and>
   consumeObject plainText ''O:1:"A":1:{s:1:"a";a:0:{}]'' 0 dummyObject =
     Returns (- 1, Some (ErrorString ''can not consume type: a:0:{}]''), dummyObject) \<and>
   ''O:1:"A":1:{s:1:"a";a:0:{}]'' = ''O:1:"A":1:{s:1:"a";a:0:{}}''[25 := CHR '']'']\<close>
  by (simp add: consumeObject.simps consumePairs.simps consumeString_def
      consumeStringRealPart_def consumeIntPart_def checkType_def consumeStringUntilByte_def
      findByte_def slice_def Atoi_def isDigit_def FieldByName_def dummyObject_def
      upperCaseFirstLetter_def consumeNext_def assignField_def plainText_def)

text \<open>
  The hypothesis on the decoded texts is needed: \<^verbatim>\<open>consumeStringRealPart\<close> slices the
  text that the raw-decode helper makes of the whole buffer. With a helper that drops
  backslashes, a backslash in the place of \<^verbatim>\<open>{\<close> moves the decoded text under the
  offsets, the key read is no longer \<^verbatim>\<open>a\<close>, and the field stays as it was.
\<close>

lemma decoded_text_is_read:
  \<open>consumeObject dropsBackslashes ''O:1:"A":1:{s:1:"a";i:1;}'' 0
     (SStruct [(''A'', True, SInt KInt 0)]) =
     Returns (24, None, SStruct [(''A'', True, SInt KInt 1)]) \<and>
   consumeObject dropsBackslashes (''O:1:"A":1:{s:1:"a";i:1;}''[10 := CHR 0x5C]) 0
     (SStruct [(''A'', True, SInt KInt 0)]) =
     Returns (24, None, SStruct [(''A'', True, SInt KInt 0)])\<close>
proof -
  have keys: "upperCaseFirstLetter ''a'' = ''A''"
    by (simp add: upperCaseFirstLetter_def toUpper_def char_of_eq_iff)
  have quote: "upperCaseFirstLetter [CHR 0x22] = [CHR 0x22]"
    by (simp add: upperCaseFirstLetter_def toUpper_def)
  show ?thesis
    by (simp add: consumeObject.simps consumePairs.simps consumeString_def
        consumeStringRealPart_def consumeIntPart_def checkType_def consumeStringUntilByte_def
        findByte_def slice_def Atoi_def isDigit_def FieldByName_def keys quote
        consumeNext_def boxed_def consumeInt_def assignField_def setField_def
        dropsBackslashes_def)
qed

end
